theory Spec2Isabelle
  imports Complex_Main "HOL-Library.AList"
begin

section \<open>JavaScript numbers\<close>

text \<open>
  The clock stores JavaScript numbers, which are IEEE 754 doubles. A number is \<open>NaN\<close>, one
  of the two infinities, or a finite value, held as the real that it denotes. The special
  values follow IEEE 754 as JavaScript applies it: every comparison with \<open>NaN\<close> is false,
  \<open>Infinity - Infinity\<close> and \<open>Infinity * 0\<close> are \<open>NaN\<close>. The sign of zero is outside this
  model.
\<close>

datatype jsnum = NaN | NInf | Fin real | PInf

fun js_neg :: "jsnum \<Rightarrow> jsnum" where
  "js_neg NaN = NaN"
| "js_neg NInf = PInf"
| "js_neg PInf = NInf"
| "js_neg (Fin a) = Fin (- a)"

text \<open>
  The sum, product and quotient of two finite values are rounded as doubles round them: to
  the nearest value with 53 binary digits, the even one of two nearest, in steps of
  \<open>2 ^ - 1074\<close> below \<open>2 ^ - 1022\<close>, and to an infinity when the rounded value reaches
  \<open>2 ^ 1024\<close>. \<open>round_even\<close> rounds to the nearest integer, \<open>bit_length\<close> counts the
  binary digits of a natural number, and \<open>binary_exponent x\<close> is the \<open>e\<close> with
  \<open>2 ^ e \<le> x < 2 ^ (e + 1)\<close>, for \<open>x > 0\<close>.
\<close>

definition round_even :: "real \<Rightarrow> int" where
  "round_even x =
     (let n = \<lfloor>x\<rfloor>; d = x - of_int n
      in if d < 1 / 2 then n else if 1 / 2 < d then n + 1 else if even n then n else n + 1)"

fun bit_length :: "nat \<Rightarrow> nat" where
  "bit_length n = (if n = 0 then 0 else Suc (bit_length (n div 2)))"

definition binary_exponent :: "real \<Rightarrow> int" where
  "binary_exponent x =
     (if 1 \<le> x then int (bit_length (nat \<lfloor>x\<rfloor>)) - 1
      else - int (bit_length (nat (\<lceil>1 / x\<rceil> - 1))))"

definition round_double :: "real \<Rightarrow> jsnum" where
  "round_double x =
     (if x = 0 then Fin 0
      else let e = max (binary_exponent \<bar>x\<bar>) (- 1022) - 52;
               r = of_int (round_even (x / 2 powi e)) * 2 powi e
           in if 2 ^ 1024 \<le> \<bar>r\<bar> then (if 0 < x then PInf else NInf) else Fin r)"

text \<open>
  A sum with zero is the other operand, in doubles without rounding; the case is written out
  so that it holds of every finite value of this model.
\<close>

fun js_add :: "jsnum \<Rightarrow> jsnum \<Rightarrow> jsnum" where
  "js_add NaN _ = NaN"
| "js_add _ NaN = NaN"
| "js_add PInf NInf = NaN"
| "js_add NInf PInf = NaN"
| "js_add PInf _ = PInf"
| "js_add _ PInf = PInf"
| "js_add NInf _ = NInf"
| "js_add _ NInf = NInf"
| "js_add (Fin a) (Fin b) =
     (if b = 0 then Fin a else if a = 0 then Fin b else round_double (a + b))"

definition js_sub :: "jsnum \<Rightarrow> jsnum \<Rightarrow> jsnum" where
  "js_sub a b = js_add a (js_neg b)"

text \<open>The sign of a number that is not \<open>NaN\<close>: \<open>-1\<close>, \<open>0\<close> or \<open>1\<close>.\<close>

fun js_sign :: "jsnum \<Rightarrow> int" where
  "js_sign NaN = 0"
| "js_sign NInf = - 1"
| "js_sign PInf = 1"
| "js_sign (Fin a) = (if a < 0 then - 1 else if a = 0 then 0 else 1)"

definition inf_of_sign :: "int \<Rightarrow> jsnum" where
  "inf_of_sign s = (if s = 0 then NaN else if s < 0 then NInf else PInf)"

fun js_mul :: "jsnum \<Rightarrow> jsnum \<Rightarrow> jsnum" where
  "js_mul NaN _ = NaN"
| "js_mul _ NaN = NaN"
| "js_mul (Fin a) (Fin b) = round_double (a * b)"
| "js_mul a b = inf_of_sign (js_sign a * js_sign b)"

fun js_div :: "jsnum \<Rightarrow> jsnum \<Rightarrow> jsnum" where
  "js_div NaN _ = NaN"
| "js_div _ NaN = NaN"
| "js_div (Fin a) (Fin b) =
     (if b = 0 then inf_of_sign (js_sign (Fin a)) else round_double (a / b))"
| "js_div (Fin a) _ = Fin 0"
| "js_div a (Fin b) = inf_of_sign (js_sign a * (if b < 0 then - 1 else 1))"
| "js_div _ _ = NaN"

fun js_lt :: "jsnum \<Rightarrow> jsnum \<Rightarrow> bool" where
  "js_lt NaN _ = False"
| "js_lt _ NaN = False"
| "js_lt PInf _ = False"
| "js_lt _ NInf = False"
| "js_lt NInf _ = True"
| "js_lt _ PInf = True"
| "js_lt (Fin a) (Fin b) = (a < b)"

fun js_eq :: "jsnum \<Rightarrow> jsnum \<Rightarrow> bool" where
  "js_eq NaN _ = False"
| "js_eq _ NaN = False"
| "js_eq a b = (a = b)"

definition js_le :: "jsnum \<Rightarrow> jsnum \<Rightarrow> bool" where
  "js_le a b = (js_lt a b \<or> js_eq a b)"

definition js_gt :: "jsnum \<Rightarrow> jsnum \<Rightarrow> bool" where
  "js_gt a b = js_lt b a"

definition js_ge :: "jsnum \<Rightarrow> jsnum \<Rightarrow> bool" where
  "js_ge a b = js_le b a"

text \<open>\<open>Math.max\<close>, \<open>Math.min\<close>, \<open>Math.abs\<close> and \<open>Math.ceil\<close>.\<close>

fun Math_max :: "jsnum \<Rightarrow> jsnum \<Rightarrow> jsnum" where
  "Math_max NaN _ = NaN"
| "Math_max _ NaN = NaN"
| "Math_max a b = (if js_lt a b then b else a)"

fun Math_min :: "jsnum \<Rightarrow> jsnum \<Rightarrow> jsnum" where
  "Math_min NaN _ = NaN"
| "Math_min _ NaN = NaN"
| "Math_min a b = (if js_lt b a then b else a)"

fun Math_abs :: "jsnum \<Rightarrow> jsnum" where
  "Math_abs NaN = NaN"
| "Math_abs NInf = PInf"
| "Math_abs PInf = PInf"
| "Math_abs (Fin a) = Fin \<bar>a\<bar>"

fun Math_ceil :: "jsnum \<Rightarrow> jsnum" where
  "Math_ceil (Fin a) = Fin (of_int \<lceil>a\<rceil>)"
| "Math_ceil a = a"

text \<open>
  The remainder operator \<open>%\<close>: the quotient is truncated towards zero, so the result has the
  sign of the dividend. The remainder of two doubles is a double: nothing is rounded.
\<close>

definition trunc :: "real \<Rightarrow> int" where
  "trunc x = (if 0 \<le> x then \<lfloor>x\<rfloor> else \<lceil>x\<rceil>)"

fun js_mod :: "jsnum \<Rightarrow> jsnum \<Rightarrow> jsnum" where
  "js_mod NaN _ = NaN"
| "js_mod _ NaN = NaN"
| "js_mod (Fin a) (Fin b) = (if b = 0 then NaN else Fin (a - b * of_int (trunc (a / b))))"
| "js_mod (Fin a) _ = Fin a"
| "js_mod _ _ = NaN"

definition js_ne :: "jsnum \<Rightarrow> jsnum \<Rightarrow> bool" where
  "js_ne a b = (\<not> js_eq a b)"

section \<open>The clock and its runtime\<close>

text \<open>
  A callback is known by its identity only. A time listener is the array
  \<open>[time, callback]\<close> that \<open>onceAt\<close> and \<open>alwaysAt\<close> allocate; the registry is keyed by the
  identity of that array, which \<open>l_ref\<close> stands for. The arrays are never mutated, so two
  listeners are the same object exactly when they are equal here, as long as every allocation
  takes a fresh \<open>l_ref\<close>.
\<close>

type_synonym callback = nat

datatype listener = Listener (l_ref: nat) (l_time: jsnum) (l_callback: callback)

text \<open>The registry's value \<open>[timeoutId, lastCalled, once]\<close>.\<close>

type_synonym listenerData = "nat \<times> jsnum \<times> bool"

text \<open>
  The fields of \<open>VirtualClock\<close>. \<open>timeListeners\<close> is a JavaScript \<open>Map\<close>: an association
  list in insertion order, where setting a present key replaces its value in place
  (\<open>AList.update\<close>).
\<close>

record clock =
  previousTime :: jsnum
  previousNow :: real
  rate :: jsnum
  running :: bool
  minimum :: jsnum
  maximum :: jsnum
  loop :: bool
  eventListeners :: "string \<rightharpoonup> callback list"
  timeListeners :: "(listener \<times> listenerData) list"

text \<open>
  What a pending timer does when it fires: \<open>Retry\<close> is the closure armed with delay 1 that
  runs \<open>_recalculateTimeListener\<close> again, \<open>Fire\<close> the closure that calls the callback.
  A pending timer is its id, its delay in milliseconds and its closure.
\<close>

datatype timeout_action = Retry listener | Fire listener

type_synonym timeout = "nat \<times> jsnum \<times> timeout_action"

text \<open>
  Callbacks are opaque: a call is recorded with what the callback can observe when it is
  called, the clock and the pending timers. Callbacks that call back into the clock are
  outside this model.
\<close>

datatype call =
  EventCall string callback clock "timeout list"
| TimeCall listener clock "timeout list"

text \<open>
  The host: the pending timers of \<open>setTimeout\<close>, the next timer id (ids are positive, the
  clock stores \<open>0\<close> for "no timer"), the next fresh array identity and the calls made so far.
\<close>

record runtime =
  timeouts :: "timeout list"
  nextTimeoutId :: nat
  nextRef :: nat
  calls :: "call list"

type_synonym world = "clock \<times> runtime"

datatype error = Error string

definition setTimeout :: "timeout_action \<Rightarrow> jsnum \<Rightarrow> runtime \<Rightarrow> nat \<times> runtime" where
  "setTimeout f delay rt =
     (nextTimeoutId rt,
      rt\<lparr>timeouts := timeouts rt @ [(nextTimeoutId rt, delay, f)],
         nextTimeoutId := Suc (nextTimeoutId rt)\<rparr>)"

definition clearTimeout :: "nat \<Rightarrow> runtime \<Rightarrow> runtime" where
  "clearTimeout timeoutId rt = rt\<lparr>timeouts := filter (\<lambda>t. fst t \<noteq> timeoutId) (timeouts rt)\<rparr>"

text \<open>The constructor; \<open>now\<close> is the reading of the wall clock it takes.\<close>

definition constructor :: "real \<Rightarrow> clock" where
  "constructor now =
     \<lparr>previousTime = Fin 0, previousNow = now, rate = Fin 1, running = False,
      minimum = NInf, maximum = PInf, loop = False,
      eventListeners = Map.empty, timeListeners = []\<rparr>"

definition initial_runtime :: runtime where
  "initial_runtime = \<lparr>timeouts = [], nextTimeoutId = 1, nextRef = 0, calls = []\<rparr>"

section \<open>The time getter\<close>

text \<open>
  The two loops of \<open>get time\<close>. Neither has a bound on its iterations in the source, so each
  is a partial function: \<open>None\<close> is a loop that never ends.
\<close>

partial_function (option) time_loop_add :: "jsnum \<Rightarrow> jsnum \<Rightarrow> jsnum \<Rightarrow> jsnum option" where
  "time_loop_add currentTime mn mx =
     (let currentTime = js_add currentTime (js_sub mx mn)
      in if js_lt currentTime mn then time_loop_add currentTime mn mx else Some currentTime)"

partial_function (option) time_loop_sub :: "jsnum \<Rightarrow> jsnum \<Rightarrow> jsnum \<Rightarrow> jsnum option" where
  "time_loop_sub currentTime mn mx =
     (if js_ge currentTime mx then time_loop_sub (js_sub currentTime (js_sub mx mn)) mn mx
      else Some currentTime)"

text \<open>
  \<open>get time\<close>, with \<open>now\<close> the reading of \<open>this._now()\<close>. Every operation below takes one
  reading \<open>now\<close> for all the calls of \<open>this._now()\<close> it makes.
\<close>

definition get_time :: "clock \<Rightarrow> real \<Rightarrow> jsnum option" where
  "get_time c now =
     (let currentTime = previousTime c;
          currentTime = (if running c
                         then js_add currentTime
                                (js_mul (rate c) (js_sub (Fin now) (Fin (previousNow c))))
                         else currentTime)
      in if loop c \<and> js_gt (minimum c) NInf \<and> js_lt (maximum c) PInf then
           if js_lt currentTime (minimum c) then
             time_loop_add currentTime (minimum c) (maximum c)
           else if js_eq (minimum c) (Fin 0) then
             Some (js_mod currentTime (maximum c))
           else
             time_loop_sub currentTime (minimum c) (maximum c)
         else
           Some (Math_min (Math_max (minimum c) currentTime) (maximum c)))"

section \<open>Event listeners\<close>

definition on :: "string \<Rightarrow> callback \<Rightarrow> clock \<Rightarrow> clock" where
  "on event callback c =
     (case eventListeners c event of
        Some listeners \<Rightarrow> c\<lparr>eventListeners := (eventListeners c)(event \<mapsto> listeners @ [callback])\<rparr>
      | None \<Rightarrow> c\<lparr>eventListeners := (eventListeners c)(event \<mapsto> [callback])\<rparr>)"

text \<open>\<open>listeners.splice(i, 1)\<close> at the first index of the callback.\<close>

fun remove_first :: "callback \<Rightarrow> callback list \<Rightarrow> callback list" where
  "remove_first x [] = []"
| "remove_first x (y # ys) = (if x = y then ys else y # remove_first x ys)"

text \<open>A thrown error comes with the clock as it is at the throw.\<close>

definition off :: "string \<Rightarrow> callback \<Rightarrow> clock \<Rightarrow> error \<times> clock + clock" where
  "off event callback c =
     (case eventListeners c event of
        Some listeners \<Rightarrow>
          if callback \<in> set listeners
          then Inr (c\<lparr>eventListeners := (eventListeners c)(event \<mapsto> remove_first callback listeners)\<rparr>)
          else Inl (Error ''Event listener not found'', c)
      | None \<Rightarrow> Inl (Error ''Event listener not found'', c))"

definition trigger :: "string \<Rightarrow> world \<Rightarrow> world" where
  "trigger event w =
     (case eventListeners (fst w) event of
        Some listeners \<Rightarrow>
          (fst w, (snd w)\<lparr>calls := calls (snd w)
                     @ map (\<lambda>listener. EventCall event listener (fst w) (timeouts (snd w))) listeners\<rparr>)
      | None \<Rightarrow> w)"

section \<open>The scheduler of time listeners\<close>

text \<open>
  \<open>_recalculateTimeListener\<close>. \<open>None\<close>: the call of \<open>get time\<close> inside it never returns.
\<close>

definition recalculateTimeListener :: "listener \<Rightarrow> real \<Rightarrow> world \<Rightarrow> world option" where
  "recalculateTimeListener listener now w =
     (let c = fst w; rt = snd w in
      case map_of (timeListeners c) listener of
        None \<Rightarrow> Some w
      | Some (timeoutId, lastCalled, once) \<Rightarrow>
          let time = l_time listener;
              rt = clearTimeout timeoutId rt
          in if running c \<and> js_ne (rate c) (Fin 0)
                \<and> js_ge time (minimum c) \<and> js_le time (maximum c) then
               case get_time c now of
                 None \<Rightarrow> None
               | Some currentTime \<Rightarrow>
                   if js_eq currentTime lastCalled then
                     if loop c \<or> js_ne currentTime (minimum c) \<and> js_ne currentTime (maximum c) then
                       let (tid, rt) = setTimeout (Retry listener) (Fin 1) rt
                       in Some (c\<lparr>timeListeners :=
                                   AList.update listener (tid, lastCalled, once) (timeListeners c)\<rparr>, rt)
                     else Some (c, rt)
                   else
                     let until = (if js_gt (rate c) (Fin 0) then js_sub time currentTime
                                  else js_sub currentTime time)
                     in if js_ge until (Fin 0)
                           \<or> loop c \<and> js_gt (minimum c) NInf \<and> js_lt (maximum c) PInf then
                          let until = (if js_lt until (Fin 0)
                                       then js_add until (js_sub (maximum c) (minimum c))
                                       else until);
                              until = js_mul until (js_div (Fin 1) (Math_abs (rate c)));
                              until = Math_ceil until;
                              (tid, rt) = setTimeout (Fire listener) until rt
                          in Some (c\<lparr>timeListeners :=
                                      AList.update listener (tid, NaN, once) (timeListeners c)\<rparr>, rt)
                        else Some (c, rt)
             else Some (c, rt))"

text \<open>
  \<open>_recalculateTimeListeners\<close>: the loop over the keys of the registry. A recalculation
  neither adds nor deletes a key, so the keys are those at the start of the loop.
\<close>

fun recalculate_each :: "listener list \<Rightarrow> real \<Rightarrow> world \<Rightarrow> world option" where
  "recalculate_each [] now w = Some w"
| "recalculate_each (listener # rest) now w =
     (case recalculateTimeListener listener now w of
        None \<Rightarrow> None
      | Some w' \<Rightarrow> recalculate_each rest now w')"

definition recalculateTimeListeners :: "real \<Rightarrow> world \<Rightarrow> world option" where
  "recalculateTimeListeners now w = recalculate_each (map fst (timeListeners (fst w))) now w"

text \<open>The closure armed by \<open>_recalculateTimeListener\<close> for the listener's time, when it fires.\<close>

definition fire_listener :: "listener \<Rightarrow> real \<Rightarrow> world \<Rightarrow> world option" where
  "fire_listener listener now w =
     (let c = fst w; rt = snd w in
      case map_of (timeListeners c) listener of
        None \<Rightarrow> Some w
      | Some (timeoutId, lastCalled, once) \<Rightarrow>
          (case get_time c now of
             None \<Rightarrow> None
           | Some t \<Rightarrow>
               let c = c\<lparr>timeListeners := AList.update listener (0, t, once) (timeListeners c)\<rparr>;
                   rt = rt\<lparr>calls := calls rt @ [TimeCall listener c (timeouts rt)]\<rparr>
               in if once
                  then Some (c\<lparr>timeListeners := AList.delete listener (timeListeners c)\<rparr>, rt)
                  else recalculateTimeListener listener now (c, rt)))"

text \<open>
  The host fires the pending timer \<open>timeoutId\<close> at the wall-clock reading \<open>now\<close>: the timer
  leaves the pending ones and its closure runs. Firing a timer that is not pending does
  nothing.
\<close>

definition fire_timeout :: "nat \<Rightarrow> real \<Rightarrow> world \<Rightarrow> world option" where
  "fire_timeout timeoutId now w =
     (case find (\<lambda>t. fst t = timeoutId) (timeouts (snd w)) of
        None \<Rightarrow> Some w
      | Some (_, _, f) \<Rightarrow>
          let w = (fst w, clearTimeout timeoutId (snd w))
          in case f of
               Retry listener \<Rightarrow> recalculateTimeListener listener now w
             | Fire listener \<Rightarrow> fire_listener listener now w)"

text \<open>\<open>onceAt\<close> and \<open>alwaysAt\<close>: a fresh array is the key.\<close>

definition register :: "jsnum \<Rightarrow> callback \<Rightarrow> bool \<Rightarrow> real \<Rightarrow> world \<Rightarrow> world option" where
  "register time callback once now w =
     (let c = fst w; rt = snd w;
          listener = Listener (nextRef rt) time callback;
          rt = rt\<lparr>nextRef := Suc (nextRef rt)\<rparr>;
          c = c\<lparr>timeListeners := AList.update listener (0, NaN, once) (timeListeners c)\<rparr>
      in recalculateTimeListener listener now (c, rt))"

definition onceAt :: "jsnum \<Rightarrow> callback \<Rightarrow> real \<Rightarrow> world \<Rightarrow> world option" where
  "onceAt time callback now w = register time callback True now w"

definition alwaysAt :: "jsnum \<Rightarrow> callback \<Rightarrow> real \<Rightarrow> world \<Rightarrow> world option" where
  "alwaysAt time callback now w = register time callback False now w"

text \<open>\<open>removeAt\<close>: the loop deletes the matching keys from the registry and does nothing else.\<close>

fun removeAt_each :: "listener list \<Rightarrow> jsnum \<Rightarrow> callback \<Rightarrow> clock \<Rightarrow> clock" where
  "removeAt_each [] time callback c = c"
| "removeAt_each (listener # rest) time callback c =
     removeAt_each rest time callback
       (if js_eq (l_time listener) time \<and> l_callback listener = callback
        then c\<lparr>timeListeners := AList.delete listener (timeListeners c)\<rparr>
        else c)"

definition removeAt :: "jsnum \<Rightarrow> callback \<Rightarrow> world \<Rightarrow> world" where
  "removeAt time callback w =
     (removeAt_each (map fst (timeListeners (fst w))) time callback (fst w), snd w)"

section \<open>Starting, stopping and the setters\<close>

definition start :: "real \<Rightarrow> world \<Rightarrow> world option" where
  "start now w =
     (if \<not> running (fst w) then
        case recalculateTimeListeners now ((fst w)\<lparr>previousNow := now, running := True\<rparr>, snd w) of
          None \<Rightarrow> None
        | Some w' \<Rightarrow> Some (trigger ''setrunning'' (trigger ''start'' w'))
      else Some (trigger ''setrunning'' w))"

definition stop :: "real \<Rightarrow> world \<Rightarrow> world option" where
  "stop now w =
     (if running (fst w) then
        case get_time (fst w) now of
          None \<Rightarrow> None
        | Some t \<Rightarrow>
            (case recalculateTimeListeners now ((fst w)\<lparr>previousTime := t, running := False\<rparr>, snd w) of
               None \<Rightarrow> None
             | Some w' \<Rightarrow> Some (trigger ''setrunning'' (trigger ''stop'' w')))
      else Some (trigger ''setrunning'' w))"

definition set_time :: "jsnum \<Rightarrow> real \<Rightarrow> world \<Rightarrow> world option" where
  "set_time time now w =
     (let c = fst w;
          c = c\<lparr>previousTime := Math_min (Math_max (minimum c) time) (maximum c),
                previousNow := now\<rparr>
      in case recalculateTimeListeners now (c, snd w) of
           None \<Rightarrow> None
         | Some w' \<Rightarrow> Some (trigger ''settime'' w'))"

definition set_running :: "bool \<Rightarrow> real \<Rightarrow> world \<Rightarrow> world option" where
  "set_running r now w = (if r then start now w else stop now w)"

definition set_rate :: "jsnum \<Rightarrow> real \<Rightarrow> world \<Rightarrow> world option" where
  "set_rate r now w =
     (case (if running (fst w)
            then (case get_time (fst w) now of
                    None \<Rightarrow> None
                  | Some t \<Rightarrow> Some ((fst w)\<lparr>previousTime := t, previousNow := now\<rparr>))
            else Some (fst w)) of
        None \<Rightarrow> None
      | Some c \<Rightarrow>
          (case recalculateTimeListeners now (c\<lparr>rate := r\<rparr>, snd w) of
             None \<Rightarrow> None
           | Some w' \<Rightarrow> Some (trigger ''setrate'' w')))"

text \<open>
  The setters of the bounds throw: \<open>Inl\<close> is the error with the world as it is at the throw,
  \<open>None\<close> a call that never returns.
\<close>

definition set_minimum :: "jsnum \<Rightarrow> real \<Rightarrow> world \<Rightarrow> (error \<times> world + world) option" where
  "set_minimum m now w =
     (case get_time (fst w) now of
        None \<Rightarrow> None
      | Some previousTime' \<Rightarrow>
          if js_gt m (maximum (fst w)) \<or> js_eq m PInf then
            Some (Inl (Error ''Cannot set minimum above maximum'', w))
          else
            let c = (fst w)\<lparr>minimum := m\<rparr>;
                c = c\<lparr>previousTime := Math_min (Math_max (minimum c) previousTime') (maximum c),
                      previousNow := now\<rparr>
            in case recalculateTimeListeners now (c, snd w) of
                 None \<Rightarrow> None
               | Some w' \<Rightarrow> Some (Inr (trigger ''setminimum'' w')))"

definition set_maximum :: "jsnum \<Rightarrow> real \<Rightarrow> world \<Rightarrow> (error \<times> world + world) option" where
  "set_maximum m now w =
     (case get_time (fst w) now of
        None \<Rightarrow> None
      | Some previousTime' \<Rightarrow>
          if js_lt m (minimum (fst w)) \<or> js_eq m NInf then
            Some (Inl (Error ''Cannot set maximum below minimum'', w))
          else
            let c = (fst w)\<lparr>maximum := m\<rparr>;
                c = c\<lparr>previousTime := Math_min (Math_max (minimum c) previousTime') (maximum c),
                      previousNow := now\<rparr>
            in case recalculateTimeListeners now (c, snd w) of
                 None \<Rightarrow> None
               | Some w' \<Rightarrow> Some (Inr (trigger ''setmaximum'' w')))"

definition set_loop :: "bool \<Rightarrow> real \<Rightarrow> world \<Rightarrow> world option" where
  "set_loop l now w =
     (case get_time (fst w) now of
        None \<Rightarrow> None
      | Some t \<Rightarrow>
          (case recalculateTimeListeners now
                  ((fst w)\<lparr>previousTime := t, previousNow := now, loop := l\<rparr>, snd w) of
             None \<Rightarrow> None
           | Some w' \<Rightarrow> Some (trigger ''setloop'' w')))"

section \<open>Notions used in the statements\<close>

fun is_finite :: "jsnum \<Rightarrow> bool" where
  "is_finite (Fin a) = True"
| "is_finite _ = False"

text \<open>The condition under which \<open>get time\<close> and the scheduler loop around.\<close>

definition can_loop :: "clock \<Rightarrow> bool" where
  "can_loop c = (loop c \<and> js_gt (minimum c) NInf \<and> js_lt (maximum c) PInf)"

text \<open>The time of \<open>get time\<close> before the bounds are applied.\<close>

definition unbounded_time :: "clock \<Rightarrow> real \<Rightarrow> jsnum" where
  "unbounded_time c now =
     (if running c
      then js_add (previousTime c) (js_mul (rate c) (js_sub (Fin now) (Fin (previousNow c))))
      else previousTime c)"

text \<open>
  A running clock that loops in \<open>[0, 10)\<close> at rate 2, and a stopped clock that loops between
  equal bounds.
\<close>

definition looping_clock :: clock where
  "looping_clock =
     \<lparr>previousTime = Fin 5, previousNow = 0, rate = Fin 2, running = True,
      minimum = Fin 0, maximum = Fin 10, loop = True,
      eventListeners = Map.empty, timeListeners = []\<rparr>"

definition zero_span_clock :: clock where
  "zero_span_clock =
     \<lparr>previousTime = Fin 5, previousNow = 0, rate = Fin 1, running = False,
      minimum = Fin 5, maximum = Fin 5, loop = True,
      eventListeners = Map.empty, timeListeners = []\<rparr>"

text \<open>The callbacks attached to an event, and the calls a trigger of it makes.\<close>

definition listeners_of :: "clock \<Rightarrow> string \<Rightarrow> callback list" where
  "listeners_of c event = (case eventListeners c event of Some listeners \<Rightarrow> listeners | None \<Rightarrow> [])"

definition event_calls :: "string \<Rightarrow> world \<Rightarrow> call list" where
  "event_calls event w =
     map (\<lambda>listener. EventCall event listener (fst w) (timeouts (snd w))) (listeners_of (fst w) event)"

text \<open>The listener a timer's closure has captured.\<close>

fun closure_listener :: "timeout_action \<Rightarrow> listener" where
  "closure_listener (Retry listener) = listener"
| "closure_listener (Fire listener) = listener"

text \<open>The test of \<open>removeAt\<close> on a key.\<close>

definition matches :: "jsnum \<Rightarrow> callback \<Rightarrow> listener \<Rightarrow> bool" where
  "matches time callback listener = (js_eq (l_time listener) time \<and> l_callback listener = callback)"

text \<open>
  The world after \<open>_recalculateTimeListener\<close> has cancelled the timer \<open>timeoutId\<close> of a
  listener and armed its callback with a delay: the new timer is pending, and the entry holds
  its id and no time of a last call.
\<close>

definition armed :: "listener \<Rightarrow> nat \<Rightarrow> bool \<Rightarrow> jsnum \<Rightarrow> world \<Rightarrow> world" where
  "armed listener timeoutId once delay w =
     (let rt = clearTimeout timeoutId (snd w) in
      ((fst w)\<lparr>timeListeners :=
          AList.update listener (nextTimeoutId rt, NaN, once) (timeListeners (fst w))\<rparr>,
       rt\<lparr>timeouts := timeouts rt @ [(nextTimeoutId rt, delay, Fire listener)],
          nextTimeoutId := Suc (nextTimeoutId rt)\<rparr>))"

text \<open>
  Every pending timer whose listener is registered is the timer that the listener's entry
  holds.
\<close>

definition timers_owned :: "world \<Rightarrow> bool" where
  "timers_owned w =
     (\<forall>t \<in> set (timeouts (snd w)).
        case map_of (timeListeners (fst w)) (closure_listener (snd (snd t))) of
          None \<Rightarrow> True
        | Some entry \<Rightarrow> fst entry = fst t)"

text \<open>The host fires timers one after the other, each at its own reading of the wall clock.\<close>

fun fire_timeouts :: "(nat \<times> real) list \<Rightarrow> world \<Rightarrow> world option" where
  "fire_timeouts [] w = Some w"
| "fire_timeouts ((timeoutId, now) # rest) w =
     (case fire_timeout timeoutId now w of
        None \<Rightarrow> None
      | Some w' \<Rightarrow> fire_timeouts rest w')"

text \<open>The reference time \<open>_previousTime\<close> lies within the bounds.\<close>

definition reference_within_bounds :: "clock \<Rightarrow> bool" where
  "reference_within_bounds c =
     (js_le (minimum c) (previousTime c) \<and> js_le (previousTime c) (maximum c))"

text \<open>
  The test of \<open>_recalculateTimeListener\<close> before it arms anything: the clock runs and the
  listener's time is reachable.
\<close>

definition reachable :: "listener \<Rightarrow> clock \<Rightarrow> bool" where
  "reachable listener c =
     (running c \<and> js_ne (rate c) (Fin 0)
      \<and> js_ge (l_time listener) (minimum c) \<and> js_le (l_time listener) (maximum c))"

text \<open>Two clocks that differ in the registry of time listeners only.\<close>

definition same_settings :: "clock \<Rightarrow> clock \<Rightarrow> bool" where
  "same_settings c c' =
     (previousTime c' = previousTime c \<and> previousNow c' = previousNow c \<and> rate c' = rate c
      \<and> running c' = running c \<and> minimum c' = minimum c \<and> maximum c' = maximum c
      \<and> loop c' = loop c \<and> eventListeners c' = eventListeners c)"

text \<open>No pending timer belongs to a registered listener.\<close>

definition no_live_timers :: "world \<Rightarrow> bool" where
  "no_live_timers w =
     (\<forall>t \<in> set (timeouts (snd w)).
        map_of (timeListeners (fst w)) (closure_listener (snd (snd t))) = None)"

text \<open>
  The scheduler's invariant: the timers are owned, and a clock that does not run has no
  pending timer of a registered listener.
\<close>

definition well_scheduled :: "world \<Rightarrow> bool" where
  "well_scheduled w = (timers_owned w \<and> (\<not> running (fst w) \<longrightarrow> no_live_timers w))"

text \<open>
  Worlds for the examples: the clock looping in \<open>[0, 10)\<close> with a repeating listener at
  time 4 and callback 7, never called and with no timer yet.
\<close>

definition listener_4 :: listener where
  "listener_4 = Listener 0 (Fin 4) 7"

definition looping_world :: world where
  "looping_world =
     (looping_clock\<lparr>timeListeners := [(listener_4, (0, NaN, False))]\<rparr>,
      initial_runtime\<lparr>nextRef := 1\<rparr>)"

text \<open>
  The same world after the listener's callback has been armed with delay 4 at the reading 1
  of the wall clock, and that world with the clock's \<open>_running\<close> cleared.
\<close>

definition pending_world :: world where
  "pending_world = armed listener_4 0 False (Fin 4) looping_world"

definition paused_world :: world where
  "paused_world = ((fst pending_world)\<lparr>running := False\<rparr>, snd pending_world)"

text \<open>
  The calls of an operation come after its recalculation: the recalculation of all time
  listeners, run on the clock \<open>c\<close> that the operation has updated, returns the world that the
  operation ends in (its calls apart), and the operation adds the calls of the events, each
  with that clock and those pending timers before it.
\<close>

definition emits_after_recalculation :: "string list \<Rightarrow> clock \<Rightarrow> real \<Rightarrow> world \<Rightarrow> world \<Rightarrow> bool" where
  "emits_after_recalculation events c now w w' =
     (recalculateTimeListeners now (c, snd w) = Some (fst w', (snd w')\<lparr>calls := calls (snd w)\<rparr>)
      \<and> calls (snd w') = calls (snd w) @ concat (map (\<lambda>event. event_calls event w') events))"

text \<open>
  A stopped clock with the listener at time 4, callback 8 attached to every event but
  \<open>setrunning\<close>, and callback 9 attached to \<open>setrunning\<close>.
\<close>

definition watched_clock :: clock where
  "watched_clock =
     looping_clock\<lparr>running := False,
       eventListeners := (\<lambda>event. if event = ''setrunning'' then Some [9] else Some [8]),
       timeListeners := [(listener_4, (0, NaN, False))]\<rparr>"

definition watched_world :: world where
  "watched_world = (watched_clock, initial_runtime\<lparr>nextRef := 1\<rparr>)"

text \<open>The same clock running.\<close>

definition running_watched_world :: world where
  "running_watched_world = (watched_clock\<lparr>running := True\<rparr>, initial_runtime\<lparr>nextRef := 1\<rparr>)"

text \<open>The time that the getter shows after a setter of a bound has returned.\<close>

definition displayed_after :: "(error \<times> world + world) option \<Rightarrow> real \<Rightarrow> jsnum option" where
  "displayed_after result now =
     (case result of
        Some (Inr w') \<Rightarrow> get_time (fst w') now
      | _ \<Rightarrow> None)"

text \<open>A stopped clock that loops between the equal bounds 0 and 0.\<close>

definition zero_window_clock :: clock where
  "zero_window_clock =
     \<lparr>previousTime = Fin 0, previousNow = 0, rate = Fin 1, running = False,
      minimum = Fin 0, maximum = Fin 0, loop = True,
      eventListeners = Map.empty, timeListeners = []\<rparr>"

text \<open>
  Every array identity in use, as a key of the registry or in the closure of a pending timer,
  is below the next fresh one.
\<close>

definition refs_fresh :: "world \<Rightarrow> bool" where
  "refs_fresh w =
     ((\<forall>l \<in> set (map fst (timeListeners (fst w))). l_ref l < nextRef (snd w))
      \<and> (\<forall>t \<in> set (timeouts (snd w)). l_ref (closure_listener (snd (snd t))) < nextRef (snd w)))"

definition world_invariant :: "world \<Rightarrow> bool" where
  "world_invariant w = (well_scheduled w \<and> refs_fresh w)"




text \<open>
  The doubles that the literals \<open>0.1\<close> and \<open>0.7\<close> denote, and the double
  \<open>0.09999999999999998\<close>, two steps below the first.
\<close>

definition double_0_1 :: real where
  "double_0_1 = 3602879701896397 / 2 ^ 55"

definition double_0_7 :: real where
  "double_0_7 = 3152519739159347 / 2 ^ 52"


text \<open>
  A stopped clock that loops between \<open>0.1\<close> and \<open>0.7\<close> and has been set to the time
  \<open>0.7\<close>; and a clock that loops between 1 and 2 and runs backwards from 1 at the rate
  \<open>- 2 ^ - 53\<close>, with the double just below 1 that it reaches after one millisecond.
\<close>

definition fraction_clock :: clock where
  "fraction_clock =
     \<lparr>previousTime = Fin double_0_7, previousNow = 0, rate = Fin 1, running = False,
      minimum = Fin double_0_1, maximum = Fin double_0_7, loop = True,
      eventListeners = Map.empty, timeListeners = []\<rparr>"


definition backward_clock :: clock where
  "backward_clock =
     \<lparr>previousTime = Fin 1, previousNow = 0, rate = Fin (- (1 / 2 ^ 53)), running = True,
      minimum = Fin 1, maximum = Fin 2, loop = True,
      eventListeners = Map.empty, timeListeners = []\<rparr>"


text \<open>A clock that loops between 1 and 2 and runs from 1 at the rate \<open>2 ^ 60\<close>.\<close>

definition fast_clock :: clock where
  "fast_clock =
     \<lparr>previousTime = Fin 1, previousNow = 0, rate = Fin (2 ^ 60), running = True,
      minimum = Fin 1, maximum = Fin 2, loop = True,
      eventListeners = Map.empty, timeListeners = []\<rparr>"




text \<open>
  The clock between the equal bounds 5 and 5 after \<open>start\<close>; and the stopped clock between
  these bounds with a repeating listener at the time 5 and callback 7, never called and with
  no timer.
\<close>

definition running_zero_span_world :: world where
  "running_zero_span_world = (zero_span_clock\<lparr>running := True\<rparr>, initial_runtime)"

definition listener_5 :: listener where
  "listener_5 = Listener 0 (Fin 5) 7"

definition listening_zero_span_world :: world where
  "listening_zero_span_world =
     (zero_span_clock\<lparr>timeListeners := [(listener_5, (0, NaN, False))]\<rparr>,
      initial_runtime\<lparr>nextRef := 1\<rparr>)"

section \<open>Numbers\<close>

declare bit_length.simps [simp del]

lemmas double_rounding =
  round_double_def binary_exponent_def round_even_def bit_length.simps Let_def

lemma round_double_zero [simp]: "round_double 0 = Fin 0"
  by (simp add: round_double_def)

lemma round_double_not_NaN [simp]: "round_double x \<noteq> NaN" "NaN \<noteq> round_double x"
  by (simp_all add: round_double_def Let_def)

lemma js_add_zero [simp]: "js_add x (Fin 0) = x"
  by (cases x) simp_all

lemma js_sub_zero [simp]: "js_sub x (Fin 0) = x"
  by (simp add: js_sub_def)

lemma js_sub_self [simp]: "js_sub (Fin a) (Fin a) = Fin 0"
  by (simp add: js_sub_def)

lemma js_le_Fin [simp]: "js_le (Fin a) (Fin b) = (a \<le> b)"
  by (auto simp add: js_le_def)

lemma js_ge_Fin [simp]: "js_ge (Fin a) (Fin b) = (b \<le> a)"
  by (simp add: js_ge_def)

lemma js_gt_Fin [simp]: "js_gt (Fin a) (Fin b) = (b < a)"
  by (simp add: js_gt_def)

lemma is_finite_iff: "is_finite x = (\<exists>a. x = Fin a)"
  by (cases x) auto

text \<open>The literals \<open>0.1\<close> and \<open>0.7\<close> round to the doubles above.\<close>

lemma doubles_of_literals:
  "round_double (1 / 10) = Fin double_0_1 \<and> round_double (7 / 10) = Fin double_0_7"
  by (simp add: double_rounding double_0_1_def double_0_7_def)








lemma clamp_inside:
  "js_le mn t \<Longrightarrow> js_le t mx \<Longrightarrow> Math_min (Math_max mn t) mx = t"
  by (cases mn; cases t; cases mx) (auto simp: js_le_def)

lemma js_mod_small:
  assumes "0 \<le> a" "a < b"
  shows "js_mod (Fin a) (Fin b) = Fin a"
proof -
  have "0 \<le> a / b" "a / b < 1" using assms by simp_all
  then have "\<lfloor>a / b\<rfloor> = 0" by linarith
  then show ?thesis using assms \<open>0 \<le> a / b\<close> by (simp add: trunc_def)
qed



section \<open>The loops of the time getter\<close>

text \<open>
  A loop whose step leaves the time as it is, and in the loop, never ends. That is so
  between equal bounds, where the span is zero, and wherever the span is too small next to
  the time to change it.
\<close>

lemma time_loop_sub_stuck_aux:
  assumes "time_loop_sub t mn mx = Some y"
  shows "\<not> (js_ge t mx \<and> js_sub t (js_sub mx mn) = t)"
proof (rule time_loop_sub.raw_induct
    [where P = "\<lambda>t mn mx y. \<not> (js_ge t mx \<and> js_sub t (js_sub mx mn) = t)", OF _ assms])
  fix f t mn mx and y :: jsnum
  assume IH: "\<And>t mn mx y. f t mn mx = Some y
                \<Longrightarrow> \<not> (js_ge t mx \<and> js_sub t (js_sub mx mn) = t)"
    and step: "(if js_ge t mx then f (js_sub t (js_sub mx mn)) mn mx else Some t) = Some y"
  show "\<not> (js_ge t mx \<and> js_sub t (js_sub mx mn) = t)"
  proof
    assume h: "js_ge t mx \<and> js_sub t (js_sub mx mn) = t"
    with step have "f t mn mx = Some y" by simp
    from IH[OF this] h show False by blast
  qed
qed

lemma time_loop_sub_stuck:
  "js_ge t mx \<Longrightarrow> js_sub t (js_sub mx mn) = t \<Longrightarrow> time_loop_sub t mn mx = None"
  using time_loop_sub_stuck_aux[where t=t and mn=mn and mx=mx]
  by (cases "time_loop_sub t mn mx") auto

lemma time_loop_sub_diverges: "m \<le> a \<Longrightarrow> time_loop_sub (Fin a) (Fin m) (Fin m) = None"
  by (rule time_loop_sub_stuck) simp_all

lemma time_loop_add_stuck_aux:
  assumes "time_loop_add t mn mx = Some y"
  shows "\<not> (js_lt t mn \<and> js_add t (js_sub mx mn) = t)"
proof (rule time_loop_add.raw_induct
    [where P = "\<lambda>t mn mx y. \<not> (js_lt t mn \<and> js_add t (js_sub mx mn) = t)", OF _ assms])
  fix f t mn mx and y :: jsnum
  assume IH: "\<And>t mn mx y. f t mn mx = Some y
                \<Longrightarrow> \<not> (js_lt t mn \<and> js_add t (js_sub mx mn) = t)"
    and step: "(let t' = js_add t (js_sub mx mn) in if js_lt t' mn then f t' mn mx else Some t') = Some y"
  show "\<not> (js_lt t mn \<and> js_add t (js_sub mx mn) = t)"
  proof
    assume h: "js_lt t mn \<and> js_add t (js_sub mx mn) = t"
    with step have "f t mn mx = Some y" by simp
    from IH[OF this] h show False by blast
  qed
qed

lemma time_loop_add_stuck:
  "js_lt t mn \<Longrightarrow> js_add t (js_sub mx mn) = t \<Longrightarrow> time_loop_add t mn mx = None"
  using time_loop_add_stuck_aux[where t=t and mn=mn and mx=mx]
  by (cases "time_loop_add t mn mx") auto

lemma time_loop_add_diverges: "a < m \<Longrightarrow> time_loop_add (Fin a) (Fin m) (Fin m) = None"
  by (rule time_loop_add_stuck) simp_all



lemma time_loop_sub_below: "\<not> js_ge t mx \<Longrightarrow> time_loop_sub t mn mx = Some t"
  by (subst time_loop_sub.simps) simp




section \<open>The time getter and the bounds\<close>

lemma get_time_alt:
  "get_time c now =
     (if can_loop c then
        if js_lt (unbounded_time c now) (minimum c)
        then time_loop_add (unbounded_time c now) (minimum c) (maximum c)
        else if js_eq (minimum c) (Fin 0) then Some (js_mod (unbounded_time c now) (maximum c))
        else time_loop_sub (unbounded_time c now) (minimum c) (maximum c)
      else Some (Math_min (Math_max (minimum c) (unbounded_time c now)) (maximum c)))"
  by (simp add: get_time_def can_loop_def unbounded_time_def Let_def)









text \<open>
  A clock with no listeners of either kind: recalculating and triggering do nothing. The
  setters take a new clock to the two clocks of the examples.
\<close>

lemma recalculate_no_listeners [simp]:
  "timeListeners (fst w) = [] \<Longrightarrow> recalculateTimeListeners now w = Some w"
  by (simp add: recalculateTimeListeners_def)

lemma trigger_no_listeners [simp]:
  "eventListeners (fst w) = Map.empty \<Longrightarrow> trigger event w = w"
  by (simp add: trigger_def)

lemma fraction_clock_reachable:
  "\<exists>w1 w2 w3. set_minimum (Fin double_0_1) 0 (constructor 0, initial_runtime) = Some (Inr w1)
     \<and> set_maximum (Fin double_0_7) 0 w1 = Some (Inr w2)
     \<and> set_loop True 0 w2 = Some w3
     \<and> set_time (Fin double_0_7) 0 w3 = Some (fraction_clock, initial_runtime)"
  by (simp add: set_minimum_def set_maximum_def set_loop_def set_time_def constructor_def
      get_time_def fraction_clock_def js_gt_def Let_def double_0_1_def double_0_7_def)

lemma fast_clock_reachable:
  "\<exists>w1 w2 w3 w4. set_minimum (Fin 1) 0 (constructor 0, initial_runtime) = Some (Inr w1)
     \<and> set_maximum (Fin 2) 0 w1 = Some (Inr w2)
     \<and> set_loop True 0 w2 = Some w3
     \<and> set_rate (Fin (2 ^ 60)) 0 w3 = Some w4
     \<and> start 0 w4 = Some (fast_clock, initial_runtime)"
  by (simp add: set_minimum_def set_maximum_def set_loop_def set_rate_def start_def
      constructor_def get_time_def fast_clock_def js_gt_def Let_def)

lemma backward_clock_reachable:
  "\<exists>w1 w2 w3 w4. set_minimum (Fin 1) 0 (constructor 0, initial_runtime) = Some (Inr w1)
     \<and> set_maximum (Fin 2) 0 w1 = Some (Inr w2)
     \<and> set_loop True 0 w2 = Some w3
     \<and> set_rate (Fin (- (1 / 2 ^ 53))) 0 w3 = Some w4
     \<and> start 0 w4 = Some (backward_clock, initial_runtime)"
  by (simp add: set_minimum_def set_maximum_def set_loop_def set_rate_def start_def
      constructor_def get_time_def backward_clock_def js_gt_def Let_def)



section \<open>What a recalculation does\<close>

lemma recalculate_unregistered:
  "map_of (timeListeners (fst w)) listener = None \<Longrightarrow> recalculateTimeListener listener now w = Some w"
  by (simp add: recalculateTimeListener_def)

lemma recalculate_unreachable:
  assumes "map_of (timeListeners (fst w)) listener = Some (timeoutId, lastCalled, once)"
    and "\<not> reachable listener (fst w)"
  shows "recalculateTimeListener listener now w = Some (fst w, clearTimeout timeoutId (snd w))"
  using assms by (auto simp add: recalculateTimeListener_def reachable_def Let_def)

lemma recalculate_diverges:
  assumes "map_of (timeListeners (fst w)) listener = Some (timeoutId, lastCalled, once)"
    and "reachable listener (fst w)"
    and "get_time (fst w) now = None"
  shows "recalculateTimeListener listener now w = None"
  using assms by (auto simp add: recalculateTimeListener_def reachable_def Let_def)

lemma recalculate_retry:
  assumes "map_of (timeListeners (fst w)) listener = Some (timeoutId, lastCalled, once)"
    and "reachable listener (fst w)"
    and "get_time (fst w) now = Some currentTime"
    and "js_eq currentTime lastCalled"
  shows "recalculateTimeListener listener now w =
           (if loop (fst w) \<or> js_ne currentTime (minimum (fst w)) \<and> js_ne currentTime (maximum (fst w))
            then let rt = clearTimeout timeoutId (snd w) in
                 Some ((fst w)\<lparr>timeListeners :=
                          AList.update listener (nextTimeoutId rt, lastCalled, once) (timeListeners (fst w))\<rparr>,
                       rt\<lparr>timeouts := timeouts rt @ [(nextTimeoutId rt, Fin 1, Retry listener)],
                          nextTimeoutId := Suc (nextTimeoutId rt)\<rparr>)
            else Some (fst w, clearTimeout timeoutId (snd w)))"
  using assms by (auto simp add: recalculateTimeListener_def reachable_def Let_def setTimeout_def)

lemma recalculate_schedule:
  assumes "map_of (timeListeners (fst w)) listener = Some (timeoutId, lastCalled, once)"
    and "reachable listener (fst w)"
    and "get_time (fst w) now = Some currentTime"
    and "\<not> js_eq currentTime lastCalled"
  shows "recalculateTimeListener listener now w =
           (let until = (if js_gt (rate (fst w)) (Fin 0) then js_sub (l_time listener) currentTime
                         else js_sub currentTime (l_time listener))
            in if js_ge until (Fin 0) \<or> can_loop (fst w) then
                 Some (armed listener timeoutId once
                         (Math_ceil (js_mul (if js_lt until (Fin 0)
                                             then js_add until (js_sub (maximum (fst w)) (minimum (fst w)))
                                             else until)
                                            (js_div (Fin 1) (Math_abs (rate (fst w)))))) w)
               else Some (fst w, clearTimeout timeoutId (snd w)))"
  using assms
  by (auto simp add: recalculateTimeListener_def reachable_def Let_def setTimeout_def armed_def can_loop_def)

lemma same_settings_refl [simp]: "same_settings c c"
  by (simp add: same_settings_def)

lemma same_settings_update [simp]: "same_settings c (c\<lparr>timeListeners := ls\<rparr>)"
  by (simp add: same_settings_def)

lemma same_settings_trans: "same_settings a b \<Longrightarrow> same_settings b c \<Longrightarrow> same_settings a c"
  by (simp add: same_settings_def)

lemma get_time_same_settings: "same_settings c c' \<Longrightarrow> get_time c' now = get_time c now"
  by (simp add: same_settings_def get_time_def Let_def cong: if_cong)

lemma reachable_same_settings: "same_settings c c' \<Longrightarrow> reachable l c' = reachable l c"
  by (simp add: same_settings_def reachable_def)

lemma map_fst_update_present:
  "map_of al k = Some v \<Longrightarrow> map fst (AList.update k v' al) = map fst al"
  by (simp add: update_keys map_of_eq_None_iff[symmetric])

text \<open>A recalculation changes the registry's values and the timers, nothing else.\<close>

lemma recalculate_shape:
  assumes "recalculateTimeListener listener now w = Some w'"
  shows "same_settings (fst w) (fst w')
         \<and> map fst (timeListeners (fst w')) = map fst (timeListeners (fst w))
         \<and> calls (snd w') = calls (snd w) \<and> nextRef (snd w') = nextRef (snd w)"
proof (cases "map_of (timeListeners (fst w)) listener")
  case None
  then show ?thesis using assms by (simp add: recalculate_unregistered)
next
  case (Some entry)
  obtain timeoutId lastCalled once where e: "entry = (timeoutId, lastCalled, once)"
    by (cases entry) auto
  note reg = Some[unfolded e]
  show ?thesis
  proof (cases "reachable listener (fst w)")
    case False
    from recalculate_unreachable[OF reg False] assms show ?thesis
      by (auto simp: clearTimeout_def)
  next
    case True
    show ?thesis
    proof (cases "get_time (fst w) now")
      case None
      from recalculate_diverges[OF reg True None] assms show ?thesis by simp
    next
      case (Some currentTime)
      show ?thesis
      proof (cases "js_eq currentTime lastCalled")
        case True
        from recalculate_retry[OF reg \<open>reachable listener (fst w)\<close> Some True] assms
        show ?thesis
          by (auto simp: clearTimeout_def Let_def map_fst_update_present[OF reg] split: if_splits)
      next
        case False
        from recalculate_schedule[OF reg \<open>reachable listener (fst w)\<close> Some False] assms
        show ?thesis
          by (auto simp: clearTimeout_def Let_def armed_def map_fst_update_present[OF reg] split: if_splits)
      qed
    qed
  qed
qed

lemma recalculate_returns:
  assumes "running (fst w) \<longrightarrow> get_time (fst w) now \<noteq> None"
  shows "\<exists>w'. recalculateTimeListener listener now w = Some w'"
proof (cases "map_of (timeListeners (fst w)) listener")
  case None
  then show ?thesis by (simp add: recalculate_unregistered)
next
  case (Some entry)
  obtain timeoutId lastCalled once where e: "entry = (timeoutId, lastCalled, once)"
    by (cases entry) auto
  note reg = Some[unfolded e]
  show ?thesis
  proof (cases "reachable listener (fst w)")
    case False
    from recalculate_unreachable[OF reg False] show ?thesis by simp
  next
    case True
    then have "running (fst w)" by (simp add: reachable_def)
    with assms obtain currentTime where t: "get_time (fst w) now = Some currentTime" by auto
    show ?thesis
    proof (cases "js_eq currentTime lastCalled")
      case True
      from recalculate_retry[OF reg \<open>reachable listener (fst w)\<close> t True] show ?thesis
        by (simp add: Let_def)
    next
      case False
      from recalculate_schedule[OF reg \<open>reachable listener (fst w)\<close> t False] show ?thesis
        by (simp add: Let_def)
    qed
  qed
qed

lemma recalculate_each_shape:
  "recalculate_each ls now w = Some w' \<Longrightarrow>
     same_settings (fst w) (fst w')
     \<and> map fst (timeListeners (fst w')) = map fst (timeListeners (fst w))
     \<and> calls (snd w') = calls (snd w) \<and> nextRef (snd w') = nextRef (snd w)"
proof (induction ls arbitrary: w)
  case Nil
  then show ?case by simp
next
  case (Cons l ls)
  then obtain w1 where s: "recalculateTimeListener l now w = Some w1"
    and r: "recalculate_each ls now w1 = Some w'"
    by (auto split: option.splits)
  from recalculate_shape[OF s] Cons.IH[OF r] show ?case
    by (auto intro: same_settings_trans)
qed

lemma recalculate_each_returns:
  "running (fst w) \<longrightarrow> get_time (fst w) now \<noteq> None \<Longrightarrow> \<exists>w'. recalculate_each ls now w = Some w'"
proof (induction ls arbitrary: w)
  case Nil
  then show ?case by simp
next
  case (Cons l ls)
  from recalculate_returns[OF Cons.prems] obtain w1 where
    s: "recalculateTimeListener l now w = Some w1" by blast
  from recalculate_shape[OF s] have ss: "same_settings (fst w) (fst w1)" by simp
  then have "running (fst w1) \<longrightarrow> get_time (fst w1) now \<noteq> None"
    using Cons.prems by (simp add: get_time_same_settings) (simp add: same_settings_def)
  from Cons.IH[OF this] s show ?case by simp
qed

lemma recalculateTimeListeners_shape:
  "recalculateTimeListeners now w = Some w' \<Longrightarrow>
     same_settings (fst w) (fst w')
     \<and> map fst (timeListeners (fst w')) = map fst (timeListeners (fst w))
     \<and> calls (snd w') = calls (snd w) \<and> nextRef (snd w') = nextRef (snd w)"
  unfolding recalculateTimeListeners_def by (rule recalculate_each_shape)

lemma recalculateTimeListeners_returns:
  "running (fst w) \<longrightarrow> get_time (fst w) now \<noteq> None \<Longrightarrow> \<exists>w'. recalculateTimeListeners now w = Some w'"
  unfolding recalculateTimeListeners_def by (rule recalculate_each_returns)

lemma trigger_fst [simp]: "fst (trigger event w) = fst w"
  by (simp add: trigger_def split: option.splits)

lemma trigger_timeouts [simp]: "timeouts (snd (trigger event w)) = timeouts (snd w)"
  by (simp add: trigger_def split: option.splits)

lemma trigger_calls: "calls (snd (trigger event w)) = calls (snd w) @ event_calls event w"
  by (simp add: trigger_def event_calls_def listeners_of_def split: option.splits)

section \<open>The delay of a reachable listener\<close>

text \<open>\<open>Math.ceil\<close> rounds up, by less than one millisecond.\<close>

lemma Math_ceil_rounds_up:
  "js_le (Fin x) (Math_ceil (Fin x)) \<and> js_lt (Math_ceil (Fin x)) (Fin (x + 1))"
  by simp linarith








section \<open>A listener at rest\<close>

lemma recalculate_stopped:
  assumes "\<not> running (fst w)"
  shows "\<exists>rt. recalculateTimeListener listener now w = Some (fst w, rt)
              \<and> set (timeouts rt) \<subseteq> set (timeouts (snd w))
              \<and> (\<forall>entry. map_of (timeListeners (fst w)) listener = Some entry
                    \<longrightarrow> (\<forall>t \<in> set (timeouts rt). fst t \<noteq> fst entry))
              \<and> calls rt = calls (snd w)"
proof (cases "map_of (timeListeners (fst w)) listener")
  case None
  then show ?thesis by (cases w) (simp add: recalculate_unregistered)
next
  case (Some entry)
  obtain timeoutId lastCalled once where e: "entry = (timeoutId, lastCalled, once)"
    by (cases entry) auto
  have "\<not> reachable listener (fst w)" using assms by (simp add: reachable_def)
  from recalculate_unreachable[OF Some[unfolded e] this] show ?thesis
    using Some e by (auto simp: clearTimeout_def)
qed

lemma recalculate_each_stopped:
  "\<not> running (fst w) \<Longrightarrow>
     \<exists>rt. recalculate_each ls now w = Some (fst w, rt)
          \<and> set (timeouts rt) \<subseteq> set (timeouts (snd w))
          \<and> (\<forall>l \<in> set ls. \<forall>entry. map_of (timeListeners (fst w)) l = Some entry
                \<longrightarrow> (\<forall>t \<in> set (timeouts rt). fst t \<noteq> fst entry))
          \<and> calls rt = calls (snd w)"
proof (induction ls arbitrary: w)
  case Nil
  then show ?case by (cases w) simp
next
  case (Cons l ls)
  from recalculate_stopped[OF Cons.prems, of l now] obtain rt1 where
    s: "recalculateTimeListener l now w = Some (fst w, rt1)"
    and sub1: "set (timeouts rt1) \<subseteq> set (timeouts (snd w))"
    and gone1: "\<forall>entry. map_of (timeListeners (fst w)) l = Some entry
                  \<longrightarrow> (\<forall>t \<in> set (timeouts rt1). fst t \<noteq> fst entry)"
    and c1: "calls rt1 = calls (snd w)" by blast
  have "\<not> running (fst (fst w, rt1))" using Cons.prems by simp
  from Cons.IH[OF this] obtain rt where
    r: "recalculate_each ls now (fst w, rt1) = Some (fst w, rt)"
    and sub: "set (timeouts rt) \<subseteq> set (timeouts rt1)"
    and gone: "\<forall>l \<in> set ls. \<forall>entry. map_of (timeListeners (fst w)) l = Some entry
                  \<longrightarrow> (\<forall>t \<in> set (timeouts rt). fst t \<noteq> fst entry)"
    and c: "calls rt = calls rt1" by auto
  have "recalculate_each (l # ls) now w = Some (fst w, rt)" using s r by simp
  moreover have "set (timeouts rt) \<subseteq> set (timeouts (snd w))" using sub sub1 by blast
  moreover have "\<forall>l' \<in> set (l # ls). \<forall>entry. map_of (timeListeners (fst w)) l' = Some entry
                  \<longrightarrow> (\<forall>t \<in> set (timeouts rt). fst t \<noteq> fst entry)"
    using gone gone1 sub by auto
  ultimately show ?case using c c1 by auto
qed

lemma timers_ownedD:
  assumes "timers_owned w" and "t \<in> set (timeouts (snd w))"
    and "map_of (timeListeners (fst w)) (closure_listener (snd (snd t))) = Some entry"
  shows "fst entry = fst t"
proof -
  from assms(1,2) have
    "(case map_of (timeListeners (fst w)) (closure_listener (snd (snd t))) of
        None \<Rightarrow> True | Some entry \<Rightarrow> fst entry = fst t)"
    unfolding timers_owned_def by blast
  then show ?thesis using assms(3) by simp
qed

lemma stopped_recalculation_quiet:
  assumes "\<not> running (fst w)" and "timers_owned w"
    and "recalculateTimeListeners now w = Some w'"
  shows "no_live_timers w' \<and> fst w' = fst w \<and> calls (snd w') = calls (snd w)"
proof -
  from recalculate_each_stopped[OF assms(1), of "map fst (timeListeners (fst w))" now] assms(3)
  obtain rt where w': "w' = (fst w, rt)"
    and sub: "set (timeouts rt) \<subseteq> set (timeouts (snd w))"
    and gone: "\<forall>l \<in> set (map fst (timeListeners (fst w))). \<forall>entry.
                 map_of (timeListeners (fst w)) l = Some entry
                  \<longrightarrow> (\<forall>t \<in> set (timeouts rt). fst t \<noteq> fst entry)"
    and c: "calls rt = calls (snd w)"
    by (auto simp: recalculateTimeListeners_def)
  have "no_live_timers (fst w, rt)"
    unfolding no_live_timers_def
  proof
    fix t assume t: "t \<in> set (timeouts (snd (fst w, rt)))"
    let ?l = "closure_listener (snd (snd t))"
    show "map_of (timeListeners (fst (fst w, rt))) ?l = None"
    proof (cases "map_of (timeListeners (fst w)) ?l")
      case None
      then show ?thesis by simp
    next
      case (Some entry)
      then have mem: "?l \<in> set (map fst (timeListeners (fst w)))"
        by (metis map_of_eq_None_iff option.distinct(1) set_map)
      have "t \<in> set (timeouts rt)" using t by simp
      with gone[rule_format, OF mem Some] have "fst t \<noteq> fst entry" by blast
      moreover have "t \<in> set (timeouts (snd w))" using t sub by auto
      from timers_ownedD[OF assms(2) this Some] have "fst entry = fst t" .
      ultimately show ?thesis by simp
    qed
  qed
  then show ?thesis using w' c by simp
qed

lemma fire_timeout_quiet:
  assumes "no_live_timers w"
  shows "\<exists>w'. fire_timeout timeoutId now w = Some w' \<and> no_live_timers w'
              \<and> fst w' = fst w \<and> calls (snd w') = calls (snd w)"
proof (cases "find (\<lambda>t. fst t = timeoutId) (timeouts (snd w))")
  case None
  then show ?thesis using assms by (simp add: fire_timeout_def)
next
  case (Some t)
  obtain i d f where t: "t = (i, d, f)" by (cases t) auto
  from Some have "t \<in> set (timeouts (snd w))"
    by (auto simp: find_Some_iff in_set_conv_nth)
  with assms t have un: "map_of (timeListeners (fst w)) (closure_listener f) = None"
    by (auto simp: no_live_timers_def)
  let ?w = "(fst w, clearTimeout timeoutId (snd w))"
  have nl: "no_live_timers ?w"
    using assms by (auto simp: no_live_timers_def clearTimeout_def)
  have "fire_timeout timeoutId now w = Some ?w"
    using Some t un
    by (cases f) (auto simp: fire_timeout_def Let_def recalculate_unregistered fire_listener_def)
  then show ?thesis using nl by (simp add: clearTimeout_def)
qed

lemma fire_timeouts_quiet:
  "no_live_timers w \<Longrightarrow>
     \<exists>w'. fire_timeouts firings w = Some w' \<and> fst w' = fst w \<and> calls (snd w') = calls (snd w)"
proof (induction firings arbitrary: w)
  case Nil
  then show ?case by simp
next
  case (Cons f firings)
  obtain i now where f: "f = (i, now)" by (cases f) auto
  from fire_timeout_quiet[OF Cons.prems, of i now] obtain w1 where
    s: "fire_timeout i now w = Some w1" and nl: "no_live_timers w1"
    and e: "fst w1 = fst w" "calls (snd w1) = calls (snd w)" by blast
  from Cons.IH[OF nl] s e f show ?case by auto
qed

lemma no_live_timers_trigger: "no_live_timers w \<Longrightarrow> no_live_timers (trigger event w)"
  by (simp add: no_live_timers_def)

lemma pending_world_eq:
  "pending_world =
     (looping_clock\<lparr>timeListeners := [(listener_4, (1, NaN, False))]\<rparr>,
      \<lparr>timeouts = [(1, Fin 4, Fire listener_4)], nextTimeoutId = 2, nextRef = 1, calls = []\<rparr>)"
  by (simp add: pending_world_def armed_def looping_world_def initial_runtime_def clearTimeout_def)

lemma well_scheduled_pending_world: "well_scheduled pending_world"
  by (simp add: pending_world_eq well_scheduled_def timers_owned_def looping_clock_def)

text \<open>
  C3. A recalculation of a registered listener while the clock does not run, or its rate is
  0, or the listener's time lies outside \<open>[minimum, maximum]\<close>, removes the entry's timer from
  the pending ones, arms no timer and leaves the clock as it is. And when the scheduler's
  invariant holds and the time getter returns, \<open>stop\<close> returns with the clock stopped, and
  whatever timers the host fires afterwards, in any order and at any readings of the wall
  clock, no callback is called.
\<close>

theorem unreachable_listener_rests:
  "(map_of (timeListeners (fst w)) listener = Some (timeoutId, lastCalled, once)
      \<and> (\<not> running (fst w) \<or> js_eq (rate (fst w)) (Fin 0)
          \<or> \<not> (js_ge (l_time listener) (minimum (fst w)) \<and> js_le (l_time listener) (maximum (fst w))))
    \<longrightarrow> (\<exists>w1. recalculateTimeListener listener now w = Some w1
             \<and> fst w1 = fst w
             \<and> timeouts (snd w1) = filter (\<lambda>t. fst t \<noteq> timeoutId) (timeouts (snd w))
             \<and> nextTimeoutId (snd w1) = nextTimeoutId (snd w)))
   \<and> (well_scheduled w0 \<and> get_time (fst w0) now = Some t
    \<longrightarrow> (\<exists>w'. stop now w0 = Some w' \<and> \<not> running (fst w')
             \<and> (\<forall>firings. \<exists>w''. fire_timeouts firings w' = Some w''
                    \<and> fst w'' = fst w' \<and> calls (snd w'') = calls (snd w'))))"
proof (intro conjI impI)
  assume a: "map_of (timeListeners (fst w)) listener = Some (timeoutId, lastCalled, once)
      \<and> (\<not> running (fst w) \<or> js_eq (rate (fst w)) (Fin 0)
          \<or> \<not> (js_ge (l_time listener) (minimum (fst w)) \<and> js_le (l_time listener) (maximum (fst w))))"
  then have "\<not> reachable listener (fst w)" by (auto simp: reachable_def js_ne_def)
  from recalculate_unreachable[OF _ this] a
  show "\<exists>w1. recalculateTimeListener listener now w = Some w1
             \<and> fst w1 = fst w
             \<and> timeouts (snd w1) = filter (\<lambda>t. fst t \<noteq> timeoutId) (timeouts (snd w))
             \<and> nextTimeoutId (snd w1) = nextTimeoutId (snd w)"
    by (simp add: clearTimeout_def)
next
  assume a: "well_scheduled w0 \<and> get_time (fst w0) now = Some t"
  show "\<exists>w'. stop now w0 = Some w' \<and> \<not> running (fst w')
             \<and> (\<forall>firings. \<exists>w''. fire_timeouts firings w' = Some w''
                    \<and> fst w'' = fst w' \<and> calls (snd w'') = calls (snd w'))"
  proof (cases "running (fst w0)")
    case False
    with a have "no_live_timers w0" by (simp add: well_scheduled_def)
    then have "no_live_timers (trigger ''setrunning'' w0)" by (rule no_live_timers_trigger)
    from fire_timeouts_quiet[OF this] False show ?thesis by (auto simp: stop_def)
  next
    case True
    let ?w = "((fst w0)\<lparr>previousTime := t, running := False\<rparr>, snd w0)"
    have nr: "\<not> running (fst ?w)" by simp
    have own: "timers_owned ?w" using a by (simp add: well_scheduled_def timers_owned_def)
    from recalculateTimeListeners_returns[of ?w now] obtain w1 where
      r: "recalculateTimeListeners now ?w = Some w1" by auto
    from stopped_recalculation_quiet[OF nr own r] have
      nl: "no_live_timers w1" and f: "fst w1 = fst ?w" by auto
    let ?w' = "trigger ''setrunning'' (trigger ''stop'' w1)"
    have "no_live_timers ?w'" using nl by (intro no_live_timers_trigger)
    from fire_timeouts_quiet[OF this] have
      "\<forall>firings. \<exists>w''. fire_timeouts firings ?w' = Some w''
                    \<and> fst w'' = fst ?w' \<and> calls (snd w'') = calls (snd ?w')" by blast
    moreover have "stop now w0 = Some ?w'" using True a r by (simp add: stop_def)
    moreover have "\<not> running (fst ?w')" using f by simp
    ultimately show ?thesis by blast
  qed
qed

theorem unreachable_listener_rests_witness:
  "map_of (timeListeners (fst paused_world)) listener_4 = Some (1, NaN, False)
   \<and> \<not> running (fst paused_world)
   \<and> (\<exists>w1. recalculateTimeListener listener_4 1 paused_world = Some w1
          \<and> fst w1 = fst paused_world \<and> timeouts (snd w1) = []
          \<and> nextTimeoutId (snd w1) = 2)
   \<and> well_scheduled pending_world
   \<and> get_time (fst pending_world) 1 = Some (Fin 7)
   \<and> (\<exists>w'. stop 1 pending_world = Some w' \<and> \<not> running (fst w')
          \<and> (\<exists>w''. fire_timeouts [(1, 2)] w' = Some w'' \<and> calls (snd w'') = calls (snd w')))"
proof -
  have g: "get_time (fst pending_world) 1 = Some (Fin 7)"
    by (simp add: pending_world_eq looping_clock_def get_time_def js_gt_def trunc_def
        double_rounding)
  have p: "map_of (timeListeners (fst paused_world)) listener_4 = Some (1, NaN, False)"
    "\<not> running (fst paused_world)"
    by (simp_all add: paused_world_def pending_world_eq)
  note u = unreachable_listener_rests
    [of paused_world listener_4 1 NaN False 1 pending_world "Fin 7"]
  from u p have 1: "\<exists>w1. recalculateTimeListener listener_4 1 paused_world = Some w1
          \<and> fst w1 = fst paused_world \<and> timeouts (snd w1) = []
          \<and> nextTimeoutId (snd w1) = 2"
    by (simp add: paused_world_def pending_world_eq)
  from u g well_scheduled_pending_world have
    2: "\<exists>w'. stop 1 pending_world = Some w' \<and> \<not> running (fst w')
          \<and> (\<exists>w''. fire_timeouts [(1, 2)] w' = Some w'' \<and> calls (snd w'') = calls (snd w'))"
    by blast
  from p 1 2 g well_scheduled_pending_world show ?thesis by blast
qed

section \<open>Starting and stopping\<close>

lemma trigger_alt:
  "trigger event w = (fst w, (snd w)\<lparr>calls := calls (snd w) @ event_calls event w\<rparr>)"
  by (cases w) (simp add: trigger_def event_calls_def listeners_of_def split: option.splits)

lemma event_calls_cong:
  "same_settings (fst w) (fst w') \<Longrightarrow> fst w' = fst w'' \<Longrightarrow> timeouts (snd w') = timeouts (snd w'')
     \<Longrightarrow> event_calls event w' = event_calls event w''"
  by (simp add: event_calls_def)

lemma js_lt_NaN [simp]: "js_lt x NaN = False"
  by (cases x) auto

lemma js_eq_NaN [simp]: "js_eq x NaN = False"
  by (cases x) auto

lemma time_loop_sub_NaN: "time_loop_sub NaN mn mx = Some NaN"
  by (subst time_loop_sub.simps) (simp add: js_ge_def js_le_def)

lemma get_time_of_NaN: "unbounded_time c now = NaN \<Longrightarrow> \<exists>t. get_time c now = Some t"
  by (simp add: get_time_alt time_loop_sub_NaN)

lemma unbounded_time_started:
  "unbounded_time (c\<lparr>previousNow := now, running := True\<rparr>) now = previousTime c
   \<or> unbounded_time (c\<lparr>previousNow := now, running := True\<rparr>) now = NaN"
proof (cases "previousTime c")
  case NaN
  then show ?thesis by (simp add: unbounded_time_def)
next
  case NInf
  then show ?thesis by (cases "rate c") (auto simp: unbounded_time_def inf_of_sign_def)
next
  case (Fin p)
  then show ?thesis by (cases "rate c") (auto simp: unbounded_time_def inf_of_sign_def)
next
  case PInf
  then show ?thesis by (cases "rate c") (auto simp: unbounded_time_def inf_of_sign_def)
qed

lemma get_time_started:
  assumes "\<not> running c" and "get_time c now = Some t"
  shows "\<exists>t'. get_time (c\<lparr>previousNow := now, running := True\<rparr>) now = Some t'"
proof -
  let ?c = "c\<lparr>previousNow := now, running := True\<rparr>"
  from unbounded_time_started[where c=c and now=now] show ?thesis
  proof
    assume "unbounded_time ?c now = previousTime c"
    then have "unbounded_time ?c now = unbounded_time c now"
      using assms(1) by (simp add: unbounded_time_def)
    then have "get_time ?c now = get_time c now"
      by (simp add: get_time_alt can_loop_def)
    then show ?thesis using assms(2) by simp
  next
    assume "unbounded_time ?c now = NaN"
    then show ?thesis by (rule get_time_of_NaN)
  qed
qed

lemma start_running:
  "running (fst w) \<Longrightarrow> start now w = Some (trigger ''setrunning'' w)"
  by (simp add: start_def)

lemma stop_stopped:
  "\<not> running (fst w) \<Longrightarrow> stop now w = Some (trigger ''setrunning'' w)"
  by (simp add: stop_def)

text \<open>An operation that recalculates and then triggers its events.\<close>

lemma recalculate_then_trigger:
  assumes "recalculateTimeListeners now (c, rt) = Some w1"
  shows "same_settings c (fst (trigger e2 (trigger e1 w1)))
       \<and> calls (snd (trigger e2 (trigger e1 w1)))
           = calls rt @ event_calls e1 (trigger e2 (trigger e1 w1))
                      @ event_calls e2 (trigger e2 (trigger e1 w1))
       \<and> same_settings c (fst (trigger e1 w1))
       \<and> calls (snd (trigger e1 w1)) = calls rt @ event_calls e1 (trigger e1 w1)
       \<and> (fst (trigger e1 w1), (snd (trigger e1 w1))\<lparr>calls := calls rt\<rparr>) = w1
       \<and> (fst (trigger e2 (trigger e1 w1)), (snd (trigger e2 (trigger e1 w1)))\<lparr>calls := calls rt\<rparr>) = w1"
proof -
  from recalculateTimeListeners_shape[OF assms] have
    s: "same_settings c (fst w1)" and c: "calls (snd w1) = calls rt" by simp_all
  have r: "(fst w1, (snd w1)\<lparr>calls := calls rt\<rparr>) = w1"
    using c by (cases w1) simp
  show ?thesis using s c r
    by (cases w1) (simp add: trigger_alt event_calls_def)
qed

text \<open>
  What \<open>start\<close> and \<open>stop\<close> do where the time getter returns. \<open>start\<close> on a running clock
  leaves the clock and the timers as they are and calls the listeners of \<open>setrunning\<close>, once
  each, and nothing else. On a stopped clock whose time getter returns, it sets
  \<open>_previousNow\<close> to the reading of the wall clock and \<open>_running\<close> to true, leaves every
  other setting, and calls the listeners of \<open>start\<close> and then those of \<open>setrunning\<close>, once
  each. \<open>stop\<close> on a stopped clock leaves the clock and the timers as they are and calls the
  listeners of \<open>setrunning\<close>, once each; on a running clock whose time getter returns \<open>t\<close>,
  it sets \<open>_previousTime\<close> to \<open>t\<close> and \<open>_running\<close> to false, leaves every other setting, and
  calls the listeners of \<open>stop\<close> and then those of \<open>setrunning\<close>, once each.
\<close>

lemma start_stop_events:
  "(running (fst w) \<longrightarrow>
      start now w = Some (fst w, (snd w)\<lparr>calls := calls (snd w) @ event_calls ''setrunning'' w\<rparr>))
   \<and> (\<not> running (fst w) \<and> get_time (fst w) now = Some t \<longrightarrow>
        (\<exists>w'. start now w = Some w'
           \<and> same_settings ((fst w)\<lparr>previousNow := now, running := True\<rparr>) (fst w')
           \<and> calls (snd w') = calls (snd w) @ event_calls ''start'' w' @ event_calls ''setrunning'' w'))
   \<and> (\<not> running (fst w) \<longrightarrow>
        stop now w = Some (fst w, (snd w)\<lparr>calls := calls (snd w) @ event_calls ''setrunning'' w\<rparr>))
   \<and> (running (fst w) \<and> get_time (fst w) now = Some t \<longrightarrow>
        (\<exists>w'. stop now w = Some w'
           \<and> same_settings ((fst w)\<lparr>previousTime := t, running := False\<rparr>) (fst w')
           \<and> calls (snd w') = calls (snd w) @ event_calls ''stop'' w' @ event_calls ''setrunning'' w'))"
proof (intro conjI impI)
  assume "running (fst w)"
  then show "start now w = Some (fst w, (snd w)\<lparr>calls := calls (snd w) @ event_calls ''setrunning'' w\<rparr>)"
    by (simp add: start_running trigger_alt)
next
  assume "\<not> running (fst w)"
  then show "stop now w = Some (fst w, (snd w)\<lparr>calls := calls (snd w) @ event_calls ''setrunning'' w\<rparr>)"
    by (simp add: stop_stopped trigger_alt)
next
  assume a: "\<not> running (fst w) \<and> get_time (fst w) now = Some t"
  let ?c = "(fst w)\<lparr>previousNow := now, running := True\<rparr>"
  from get_time_started[where c="fst w" and now=now and t=t] a have "get_time ?c now \<noteq> None" by auto
  with recalculateTimeListeners_returns[of "(?c, snd w)" now] obtain w1 where
    r: "recalculateTimeListeners now (?c, snd w) = Some w1" by auto
  have "start now w = Some (trigger ''setrunning'' (trigger ''start'' w1))"
    using a r by (simp add: start_def)
  with recalculate_then_trigger[OF r, of "''setrunning''" "''start''"]
  show "\<exists>w'. start now w = Some w'
           \<and> same_settings ((fst w)\<lparr>previousNow := now, running := True\<rparr>) (fst w')
           \<and> calls (snd w') = calls (snd w) @ event_calls ''start'' w' @ event_calls ''setrunning'' w'"
    by blast
next
  assume a: "running (fst w) \<and> get_time (fst w) now = Some t"
  let ?c = "(fst w)\<lparr>previousTime := t, running := False\<rparr>"
  from recalculateTimeListeners_returns[of "(?c, snd w)" now] obtain w1 where
    r: "recalculateTimeListeners now (?c, snd w) = Some w1" by auto
  have "stop now w = Some (trigger ''setrunning'' (trigger ''stop'' w1))"
    using a r by (simp add: stop_def)
  with recalculate_then_trigger[OF r, of "''setrunning''" "''stop''"]
  show "\<exists>w'. stop now w = Some w'
           \<and> same_settings ((fst w)\<lparr>previousTime := t, running := False\<rparr>) (fst w')
           \<and> calls (snd w') = calls (snd w) @ event_calls ''stop'' w' @ event_calls ''setrunning'' w'"
    by blast
qed

lemma get_time_watched_world: "get_time (fst watched_world) 1 = Some (Fin 5)"
  by (simp add: watched_world_def watched_clock_def looping_clock_def get_time_def js_gt_def trunc_def)

lemma get_time_pending_world: "get_time (fst pending_world) 1 = Some (Fin 7)"
  by (simp add: pending_world_eq looping_clock_def get_time_def js_gt_def trunc_def
      double_rounding)

text \<open>
  On the stopped clock with a callback on every event, and on the running clock with a
  pending timer.
\<close>

lemma start_stop_events_example:
  "\<not> running (fst watched_world) \<and> get_time (fst watched_world) 1 = Some (Fin 5)
   \<and> (\<exists>w'. start 1 watched_world = Some w'
          \<and> running (fst w') \<and> previousNow (fst w') = 1 \<and> previousTime (fst w') = Fin 5
          \<and> calls (snd w') = [EventCall ''start'' 8 (fst w') (timeouts (snd w')),
                               EventCall ''setrunning'' 9 (fst w') (timeouts (snd w'))])
   \<and> stop 1 watched_world
       = Some (fst watched_world,
               (snd watched_world)\<lparr>calls := [EventCall ''setrunning'' 9 (fst watched_world) []]\<rparr>)
   \<and> running (fst pending_world) \<and> get_time (fst pending_world) 1 = Some (Fin 7)
   \<and> (\<exists>w'. stop 1 pending_world = Some w'
          \<and> \<not> running (fst w') \<and> previousTime (fst w') = Fin 7 \<and> calls (snd w') = [])
   \<and> start 1 pending_world = Some pending_world"
proof -
  note a = start_stop_events[of watched_world 1 "Fin 5"]
  note b = start_stop_events[of pending_world 1 "Fin 7"]
  have nr: "\<not> running (fst watched_world)"
    by (simp add: watched_world_def watched_clock_def)
  have r: "running (fst pending_world)"
    by (simp add: pending_world_eq looping_clock_def)
  from a nr get_time_watched_world obtain w' where
    s: "start 1 watched_world = Some w'"
    and ss: "same_settings ((fst watched_world)\<lparr>previousNow := 1, running := True\<rparr>) (fst w')"
    and c: "calls (snd w') = calls (snd watched_world) @ event_calls ''start'' w'
                               @ event_calls ''setrunning'' w'"
    by blast
  from ss have 1: "running (fst w') \<and> previousNow (fst w') = 1 \<and> previousTime (fst w') = Fin 5"
    by (simp add: same_settings_def watched_world_def watched_clock_def looping_clock_def)
  from ss c have 2: "calls (snd w') = [EventCall ''start'' 8 (fst w') (timeouts (snd w')),
                               EventCall ''setrunning'' 9 (fst w') (timeouts (snd w'))]"
    by (simp add: same_settings_def event_calls_def listeners_of_def watched_world_def
        watched_clock_def initial_runtime_def)
  from a nr have 3: "stop 1 watched_world
       = Some (fst watched_world,
               (snd watched_world)\<lparr>calls := [EventCall ''setrunning'' 9 (fst watched_world) []]\<rparr>)"
    by (simp add: event_calls_def listeners_of_def watched_world_def
        watched_clock_def initial_runtime_def)
  from b r get_time_pending_world obtain w2 where
    s2: "stop 1 pending_world = Some w2"
    and ss2: "same_settings ((fst pending_world)\<lparr>previousTime := Fin 7, running := False\<rparr>) (fst w2)"
    and c2: "calls (snd w2) = calls (snd pending_world) @ event_calls ''stop'' w2
                               @ event_calls ''setrunning'' w2"
    by blast
  from ss2 c2 have 4: "\<not> running (fst w2) \<and> previousTime (fst w2) = Fin 7 \<and> calls (snd w2) = []"
    by (simp add: same_settings_def event_calls_def listeners_of_def pending_world_eq
        looping_clock_def)
  from b r have 5: "start 1 pending_world = Some pending_world"
    by (simp add: event_calls_def listeners_of_def pending_world_eq looping_clock_def)
  from nr r get_time_watched_world get_time_pending_world s 1 2 3 s2 4 5 show ?thesis
    by blast
qed

text \<open>
  On the clock between the equal bounds 5 and 5 the getter never returns, stopped or
  running, and \<open>start\<close> never returns when a listener is registered at the time 5: its
  recalculation reads the time.
\<close>

lemma get_time_zero_span:
  "get_time zero_span_clock 0 = None
   \<and> get_time (fst running_zero_span_world) 0 = None
   \<and> get_time (fst running_zero_span_world) 1000 = None"
proof -
  have "unbounded_time zero_span_clock 0 = Fin 5"
    "unbounded_time (fst running_zero_span_world) 0 = Fin 5"
    "unbounded_time (fst running_zero_span_world) 1000 = Fin 1005"
    by (simp_all add: unbounded_time_def running_zero_span_world_def zero_span_clock_def
        double_rounding)
  then show ?thesis
    by (simp add: get_time_alt can_loop_def running_zero_span_world_def zero_span_clock_def
        js_gt_def time_loop_sub_diverges)
qed

lemma start_listening_zero_span:
  "alwaysAt (Fin 5) 7 0 (zero_span_clock, initial_runtime) = Some listening_zero_span_world
   \<and> start 0 listening_zero_span_world = None"
proof -
  let ?w = "((fst listening_zero_span_world)\<lparr>previousNow := 0, running := True\<rparr>,
             snd listening_zero_span_world)"
  have a: "alwaysAt (Fin 5) 7 0 (zero_span_clock, initial_runtime) = Some listening_zero_span_world"
    by (simp add: alwaysAt_def register_def recalculateTimeListener_def Let_def
        listening_zero_span_world_def listener_5_def zero_span_clock_def initial_runtime_def
        clearTimeout_def)
  have reg: "map_of (timeListeners (fst ?w)) listener_5 = Some (0, NaN, False)"
    by (simp add: listening_zero_span_world_def)
  have re: "reachable listener_5 (fst ?w)"
    by (simp add: reachable_def listening_zero_span_world_def zero_span_clock_def listener_5_def
        js_ne_def)
  have "same_settings (fst running_zero_span_world) (fst ?w)"
    by (simp add: same_settings_def running_zero_span_world_def listening_zero_span_world_def
        zero_span_clock_def)
  then have "get_time (fst ?w) 0 = None"
    using get_time_zero_span by (simp add: get_time_same_settings)
  from recalculate_diverges[OF reg re this]
  have "recalculateTimeListeners 0 ?w = None"
    by (simp add: recalculateTimeListeners_def listening_zero_span_world_def)
  then have "start 0 listening_zero_span_world = None"
    by (simp add: start_def) (simp add: listening_zero_span_world_def zero_span_clock_def)
  with a show ?thesis by simp
qed

text \<open>
  C7, at its failing input. The clock loops between the equal bounds 5 and 5, a state that
  the setters reach from a new clock. \<open>start\<close> returns with the clock running. \<open>stop\<close> should
  then freeze the time, clear \<open>_running\<close> and call the listeners of \<open>stop\<close> and
  \<open>setrunning\<close>; it reads the time first, the getter never returns, and \<open>stop\<close> does none of
  these, at the reading of the wall clock of the start and at any later one. And \<open>start\<close>
  itself never returns on the stopped clock with a listener at the time 5.
\<close>

theorem stop_zero_span_never_returns:
  "start 0 (zero_span_clock, initial_runtime) = Some running_zero_span_world
   \<and> running (fst running_zero_span_world)
   \<and> stop 0 running_zero_span_world = None
   \<and> stop 1000 running_zero_span_world = None
   \<and> \<not> running (fst listening_zero_span_world)
   \<and> start 0 listening_zero_span_world = None"
proof -
  have s: "start 0 (zero_span_clock, initial_runtime) = Some running_zero_span_world"
    by (simp add: start_def running_zero_span_world_def zero_span_clock_def)
  have "stop 0 running_zero_span_world = None" "stop 1000 running_zero_span_world = None"
    using get_time_zero_span
    by (simp_all add: stop_def) (simp_all add: running_zero_span_world_def)
  with s start_listening_zero_span show ?thesis
    by (simp add: running_zero_span_world_def listening_zero_span_world_def zero_span_clock_def)
qed

section \<open>Events come after the recalculation\<close>

lemma recalculate_then_trigger_one:
  assumes "recalculateTimeListeners now (c, rt) = Some w1"
  shows "emits_after_recalculation [e] c now (cw, rt) (trigger e w1)"
  using assms recalculate_then_trigger[OF assms, of e e]
  by (simp add: emits_after_recalculation_def)

lemma recalculate_then_trigger_two:
  assumes "recalculateTimeListeners now (c, rt) = Some w1"
  shows "emits_after_recalculation [e1, e2] c now (cw, rt) (trigger e2 (trigger e1 w1))"
  using assms recalculate_then_trigger[OF assms, of e2 e1]
  by (simp add: emits_after_recalculation_def)

text \<open>
  What the operations do where the time getter returns, on the clock as it is where the
  operation reads the time, and on the updated clock if that clock runs: the operation
  returns, the recalculation of all time listeners has run on the updated clock, and the
  listeners of the operation's events are called after it, each call seeing the clock and
  the pending timers that the recalculation has produced.
\<close>

lemma events_after_recalculation:
  "(\<not> running (fst w) \<and> get_time (fst w) now = Some t \<longrightarrow>
      (\<exists>w'. start now w = Some w'
         \<and> emits_after_recalculation [''start'', ''setrunning'']
              ((fst w)\<lparr>previousNow := now, running := True\<rparr>) now w w'))
   \<and> (running (fst w) \<and> get_time (fst w) now = Some t \<longrightarrow>
      (\<exists>w'. stop now w = Some w'
         \<and> emits_after_recalculation [''stop'', ''setrunning'']
              ((fst w)\<lparr>previousTime := t, running := False\<rparr>) now w w'))
   \<and> (c1 = (fst w)\<lparr>previousTime := Math_min (Math_max (minimum (fst w)) x) (maximum (fst w)),
                     previousNow := now\<rparr>
        \<and> (running c1 \<longrightarrow> get_time c1 now \<noteq> None) \<longrightarrow>
      (\<exists>w'. set_time x now w = Some w' \<and> emits_after_recalculation [''settime''] c1 now w w'))
   \<and> (running (fst w) \<and> get_time (fst w) now = Some t
        \<and> c2 = (fst w)\<lparr>previousTime := t, previousNow := now, rate := r\<rparr>
        \<and> get_time c2 now \<noteq> None \<longrightarrow>
      (\<exists>w'. set_rate r now w = Some w' \<and> emits_after_recalculation [''setrate''] c2 now w w'))
   \<and> (\<not> running (fst w) \<longrightarrow>
      (\<exists>w'. set_rate r now w = Some w'
         \<and> emits_after_recalculation [''setrate''] ((fst w)\<lparr>rate := r\<rparr>) now w w'))
   \<and> (get_time (fst w) now = Some t \<and> \<not> (js_gt m (maximum (fst w)) \<or> js_eq m PInf)
        \<and> c3 = (fst w)\<lparr>minimum := m, previousTime := Math_min (Math_max m t) (maximum (fst w)),
                        previousNow := now\<rparr>
        \<and> (running c3 \<longrightarrow> get_time c3 now \<noteq> None) \<longrightarrow>
      (\<exists>w'. set_minimum m now w = Some (Inr w')
         \<and> emits_after_recalculation [''setminimum''] c3 now w w'))
   \<and> (get_time (fst w) now = Some t \<and> \<not> (js_lt m (minimum (fst w)) \<or> js_eq m NInf)
        \<and> c4 = (fst w)\<lparr>maximum := m, previousTime := Math_min (Math_max (minimum (fst w)) t) m,
                        previousNow := now\<rparr>
        \<and> (running c4 \<longrightarrow> get_time c4 now \<noteq> None) \<longrightarrow>
      (\<exists>w'. set_maximum m now w = Some (Inr w')
         \<and> emits_after_recalculation [''setmaximum''] c4 now w w'))
   \<and> (get_time (fst w) now = Some t
        \<and> c5 = (fst w)\<lparr>previousTime := t, previousNow := now, loop := l\<rparr>
        \<and> (running c5 \<longrightarrow> get_time c5 now \<noteq> None) \<longrightarrow>
      (\<exists>w'. set_loop l now w = Some w' \<and> emits_after_recalculation [''setloop''] c5 now w w'))"
proof (intro conjI impI)
  assume a: "\<not> running (fst w) \<and> get_time (fst w) now = Some t"
  let ?c = "(fst w)\<lparr>previousNow := now, running := True\<rparr>"
  from get_time_started[where c="fst w" and now=now and t=t] a have "get_time ?c now \<noteq> None" by auto
  with recalculateTimeListeners_returns[of "(?c, snd w)" now] obtain w1 where
    r: "recalculateTimeListeners now (?c, snd w) = Some w1" by auto
  have "start now w = Some (trigger ''setrunning'' (trigger ''start'' w1))"
    using a r by (simp add: start_def)
  with recalculate_then_trigger_two[OF r, where cw="fst w"]
  show "\<exists>w'. start now w = Some w'
         \<and> emits_after_recalculation [''start'', ''setrunning''] ?c now w w'"
    by simp
next
  assume a: "running (fst w) \<and> get_time (fst w) now = Some t"
  let ?c = "(fst w)\<lparr>previousTime := t, running := False\<rparr>"
  from recalculateTimeListeners_returns[of "(?c, snd w)" now] obtain w1 where
    r: "recalculateTimeListeners now (?c, snd w) = Some w1" by auto
  have "stop now w = Some (trigger ''setrunning'' (trigger ''stop'' w1))"
    using a r by (simp add: stop_def)
  with recalculate_then_trigger_two[OF r, where cw="fst w"]
  show "\<exists>w'. stop now w = Some w'
         \<and> emits_after_recalculation [''stop'', ''setrunning''] ?c now w w'"
    by simp
next
  assume a: "c1 = (fst w)\<lparr>previousTime := Math_min (Math_max (minimum (fst w)) x) (maximum (fst w)),
                     previousNow := now\<rparr>
        \<and> (running c1 \<longrightarrow> get_time c1 now \<noteq> None)"
  with recalculateTimeListeners_returns[of "(c1, snd w)" now] obtain w1 where
    r: "recalculateTimeListeners now (c1, snd w) = Some w1" by auto
  have "set_time x now w = Some (trigger ''settime'' w1)"
    using a r by (simp add: set_time_def Let_def)
  with recalculate_then_trigger_one[OF r, where cw="fst w"]
  show "\<exists>w'. set_time x now w = Some w' \<and> emits_after_recalculation [''settime''] c1 now w w'"
    by simp
next
  assume a: "running (fst w) \<and> get_time (fst w) now = Some t
        \<and> c2 = (fst w)\<lparr>previousTime := t, previousNow := now, rate := r\<rparr>
        \<and> get_time c2 now \<noteq> None"
  with recalculateTimeListeners_returns[of "(c2, snd w)" now] obtain w1 where
    r: "recalculateTimeListeners now (c2, snd w) = Some w1" by auto
  have "set_rate r now w = Some (trigger ''setrate'' w1)"
    using a r by (simp add: set_rate_def)
  with recalculate_then_trigger_one[OF r, where cw="fst w"]
  show "\<exists>w'. set_rate r now w = Some w' \<and> emits_after_recalculation [''setrate''] c2 now w w'"
    by simp
next
  assume a: "\<not> running (fst w)"
  let ?c = "(fst w)\<lparr>rate := r\<rparr>"
  from a recalculateTimeListeners_returns[of "(?c, snd w)" now] obtain w1 where
    r: "recalculateTimeListeners now (?c, snd w) = Some w1" by auto
  have "set_rate r now w = Some (trigger ''setrate'' w1)"
    using a r by (simp add: set_rate_def)
  with recalculate_then_trigger_one[OF r, where cw="fst w"]
  show "\<exists>w'. set_rate r now w = Some w' \<and> emits_after_recalculation [''setrate''] ?c now w w'"
    by simp
next
  assume a: "get_time (fst w) now = Some t \<and> \<not> (js_gt m (maximum (fst w)) \<or> js_eq m PInf)
        \<and> c3 = (fst w)\<lparr>minimum := m, previousTime := Math_min (Math_max m t) (maximum (fst w)),
                        previousNow := now\<rparr>
        \<and> (running c3 \<longrightarrow> get_time c3 now \<noteq> None)"
  with recalculateTimeListeners_returns[of "(c3, snd w)" now] obtain w1 where
    r: "recalculateTimeListeners now (c3, snd w) = Some w1" by auto
  have "set_minimum m now w = Some (Inr (trigger ''setminimum'' w1))"
    using a r by (simp add: set_minimum_def Let_def)
  with recalculate_then_trigger_one[OF r, where cw="fst w"]
  show "\<exists>w'. set_minimum m now w = Some (Inr w')
         \<and> emits_after_recalculation [''setminimum''] c3 now w w'"
    by simp
next
  assume a: "get_time (fst w) now = Some t \<and> \<not> (js_lt m (minimum (fst w)) \<or> js_eq m NInf)
        \<and> c4 = (fst w)\<lparr>maximum := m, previousTime := Math_min (Math_max (minimum (fst w)) t) m,
                        previousNow := now\<rparr>
        \<and> (running c4 \<longrightarrow> get_time c4 now \<noteq> None)"
  with recalculateTimeListeners_returns[of "(c4, snd w)" now] obtain w1 where
    r: "recalculateTimeListeners now (c4, snd w) = Some w1" by auto
  have "set_maximum m now w = Some (Inr (trigger ''setmaximum'' w1))"
    using a r by (simp add: set_maximum_def Let_def)
  with recalculate_then_trigger_one[OF r, where cw="fst w"]
  show "\<exists>w'. set_maximum m now w = Some (Inr w')
         \<and> emits_after_recalculation [''setmaximum''] c4 now w w'"
    by simp
next
  assume a: "get_time (fst w) now = Some t
        \<and> c5 = (fst w)\<lparr>previousTime := t, previousNow := now, loop := l\<rparr>
        \<and> (running c5 \<longrightarrow> get_time c5 now \<noteq> None)"
  with recalculateTimeListeners_returns[of "(c5, snd w)" now] obtain w1 where
    r: "recalculateTimeListeners now (c5, snd w) = Some w1" by auto
  have "set_loop l now w = Some (trigger ''setloop'' w1)"
    using a r by (simp add: set_loop_def)
  with recalculate_then_trigger_one[OF r, where cw="fst w"]
  show "\<exists>w'. set_loop l now w = Some w' \<and> emits_after_recalculation [''setloop''] c5 now w w'"
    by simp
qed

text \<open>
  On the running clock with a callback on every event: the setter of the time arms the
  listener's timer, and the callback of \<open>settime\<close> is called with that timer pending.
\<close>

lemma set_time_running_watched_world:
  "\<exists>c. set_time (Fin 2) 1 running_watched_world
     = Some (c, \<lparr>timeouts = [(1, Fin 1, Fire listener_4)], nextTimeoutId = 2, nextRef = 1,
                 calls = [EventCall ''settime'' 8 c [(1, Fin 1, Fire listener_4)]]\<rparr>)
     \<and> timeListeners c = [(listener_4, (1, NaN, False))]
     \<and> previousTime c = Fin 2 \<and> previousNow c = 1"
  by (simp add: set_time_def running_watched_world_def watched_clock_def looping_clock_def
      recalculateTimeListeners_def recalculateTimeListener_def get_time_def trigger_def
      setTimeout_def clearTimeout_def initial_runtime_def listener_4_def
      js_gt_def js_ne_def js_sub_def Let_def trunc_def double_rounding)

text \<open>
  C8, at its failing input. On the running clock that loops between the equal bounds 5 and 5
  the setter of the rate should update the clock, recalculate the time listeners and then
  call the listeners of \<open>setrate\<close>. It reads the time first, the getter never returns, and
  the setter does none of these. The same holds of the setter of the loop flag, also on the
  stopped clock. And on the stopped clock with a listener at the time 5, \<open>start\<close> updates
  the clock and never returns from the recalculation: the listeners of \<open>start\<close> and
  \<open>setrunning\<close> are never called.
\<close>

theorem setters_zero_span_never_return:
  "running (fst running_zero_span_world)
   \<and> set_rate (Fin 2) 0 running_zero_span_world = None
   \<and> set_loop False 0 running_zero_span_world = None
   \<and> set_loop False 0 (zero_span_clock, initial_runtime) = None
   \<and> alwaysAt (Fin 5) 7 0 (zero_span_clock, initial_runtime) = Some listening_zero_span_world
   \<and> start 0 listening_zero_span_world = None"
  using get_time_zero_span start_listening_zero_span
  by (simp add: set_loop_def set_rate_def) (simp add: running_zero_span_world_def)

section \<open>Removing listeners\<close>

lemma delete_filter: "AList.delete l xs = filter (\<lambda>entry. fst entry \<noteq> l) xs"
  by (induction xs) auto

lemma removeAt_each_Cons:
  "removeAt_each (l # ls) time callback c =
     removeAt_each ls time callback
       (if matches time callback l then c\<lparr>timeListeners := AList.delete l (timeListeners c)\<rparr>
        else c)"
  by (simp add: matches_def)

lemma removeAt_each_filter:
  "removeAt_each ls time callback c =
     c\<lparr>timeListeners :=
         filter (\<lambda>entry. \<not> (fst entry \<in> set ls \<and> matches time callback (fst entry))) (timeListeners c)\<rparr>"
proof (induction ls arbitrary: c)
  case Nil
  then show ?case by simp
next
  case (Cons l ls)
  show ?case
  proof (cases "matches time callback l")
    case True
    have "filter (\<lambda>entry. \<not> (fst entry \<in> set ls \<and> matches time callback (fst entry)))
            (filter (\<lambda>entry. fst entry \<noteq> l) (timeListeners c))
          = filter (\<lambda>entry. \<not> (fst entry \<in> set (l # ls) \<and> matches time callback (fst entry)))
              (timeListeners c)"
      unfolding filter_filter using True by (intro filter_cong) auto
    then show ?thesis using True
      by (simp add: removeAt_each_Cons Cons.IH delete_filter del: removeAt_each.simps)
  next
    case False
    have "filter (\<lambda>entry. \<not> (fst entry \<in> set ls \<and> matches time callback (fst entry)))
            (timeListeners c)
          = filter (\<lambda>entry. \<not> (fst entry \<in> set (l # ls) \<and> matches time callback (fst entry)))
              (timeListeners c)"
      using False by (intro filter_cong) auto
    then show ?thesis using False
      by (simp add: removeAt_each_Cons Cons.IH del: removeAt_each.simps)
  qed
qed

lemma removeAt_filter:
  "removeAt time callback w =
     ((fst w)\<lparr>timeListeners :=
         filter (\<lambda>entry. \<not> matches time callback (fst entry)) (timeListeners (fst w))\<rparr>, snd w)"
proof -
  have "filter (\<lambda>entry. \<not> (fst entry \<in> set (map fst (timeListeners (fst w)))
                             \<and> matches time callback (fst entry))) (timeListeners (fst w))
        = filter (\<lambda>entry. \<not> matches time callback (fst entry)) (timeListeners (fst w))"
    by (rule filter_cong) auto
  then show ?thesis by (simp add: removeAt_def removeAt_each_filter)
qed

lemma map_of_filter_removed:
  "P l \<Longrightarrow> map_of (filter (\<lambda>entry. \<not> P (fst entry)) al) l = None"
  by (induction al) auto

text \<open>
  C9. \<open>off\<close> with a callback that is not attached to the event throws, with the clock as it
  was; \<open>removeAt\<close> with a time and callback that match no registered listener returns the
  world as it was, and throws nothing.
\<close>

theorem unknown_listener_removal:
  "(callback \<notin> set (listeners_of c event) \<longrightarrow>
      off event callback c = Inl (Error ''Event listener not found'', c))
   \<and> ((\<forall>l \<in> set (map fst (timeListeners (fst w))). \<not> matches time callback' l) \<longrightarrow>
      removeAt time callback' w = w)"
proof (intro conjI impI)
  assume "callback \<notin> set (listeners_of c event)"
  then show "off event callback c = Inl (Error ''Event listener not found'', c)"
    by (simp add: off_def listeners_of_def split: option.splits)
next
  assume a: "\<forall>l \<in> set (map fst (timeListeners (fst w))). \<not> matches time callback' l"
  then have "filter (\<lambda>entry. \<not> matches time callback' (fst entry)) (timeListeners (fst w))
             = timeListeners (fst w)"
    by (simp add: filter_id_conv)
  then show "removeAt time callback' w = w"
    by (simp add: removeAt_filter)
qed

theorem unknown_listener_removal_witness:
  "8 \<notin> set (listeners_of watched_clock ''setrunning'')
   \<and> off ''setrunning'' 8 watched_clock = Inl (Error ''Event listener not found'', watched_clock)
   \<and> \<not> matches (Fin 4) 8 listener_4
   \<and> removeAt (Fin 4) 8 watched_world = watched_world"
  using unknown_listener_removal [of 8 watched_clock "''setrunning''" watched_world "Fin 4" 8]
  by (simp add: listeners_of_def watched_world_def watched_clock_def matches_def listener_4_def)

text \<open>
  C6, as amended. \<open>removeAt\<close> deletes from the registry every entry whose time and callback
  match, keeps every other entry, and leaves the host as it is: the pending timers of the
  deleted entries stay pending. When such a timer fires, it leaves the pending ones and
  nothing else happens: no callback is called, and the clock stays as it is.
\<close>

theorem removeAt_removes_entries:
  "fst (removeAt time callback w) =
     (fst w)\<lparr>timeListeners :=
         filter (\<lambda>entry. \<not> matches time callback (fst entry)) (timeListeners (fst w))\<rparr>
   \<and> snd (removeAt time callback w) = snd w
   \<and> (find (\<lambda>t. fst t = timeoutId) (timeouts (snd w)) = Some (timeoutId, delay, f)
        \<and> matches time callback (closure_listener f) \<longrightarrow>
      fire_timeout timeoutId now (removeAt time callback w)
        = Some (fst (removeAt time callback w), clearTimeout timeoutId (snd w)))"
proof (intro conjI impI)
  show "fst (removeAt time callback w) =
     (fst w)\<lparr>timeListeners :=
         filter (\<lambda>entry. \<not> matches time callback (fst entry)) (timeListeners (fst w))\<rparr>"
    by (simp add: removeAt_filter)
  show "snd (removeAt time callback w) = snd w"
    by (simp add: removeAt_filter)
  assume a: "find (\<lambda>t. fst t = timeoutId) (timeouts (snd w)) = Some (timeoutId, delay, f)
        \<and> matches time callback (closure_listener f)"
  then have "map_of (timeListeners (fst (removeAt time callback w))) (closure_listener f) = None"
    by (simp add: removeAt_filter map_of_filter_removed[where P = "matches time callback"])
  then show "fire_timeout timeoutId now (removeAt time callback w)
        = Some (fst (removeAt time callback w), clearTimeout timeoutId (snd w))"
    using a
    by (cases f) (auto simp: fire_timeout_def Let_def removeAt_filter
        recalculate_unregistered fire_listener_def)
qed

theorem removeAt_removes_entries_witness:
  "find (\<lambda>t. fst t = 1) (timeouts (snd pending_world)) = Some (1, Fin 4, Fire listener_4)
   \<and> matches (Fin 4) 7 (closure_listener (Fire listener_4))
   \<and> timeListeners (fst (removeAt (Fin 4) 7 pending_world)) = []
   \<and> fire_timeout 1 5 (removeAt (Fin 4) 7 pending_world)
       = Some (fst (removeAt (Fin 4) 7 pending_world), clearTimeout 1 (snd pending_world))
   \<and> calls (clearTimeout 1 (snd pending_world)) = []"
  using removeAt_removes_entries [of "Fin 4" 7 pending_world 1 "Fin 4" "Fire listener_4" 5]
  by (simp add: pending_world_eq matches_def listener_4_def clearTimeout_def)

text \<open>
  C6 as stated fails: after \<open>removeAt\<close> has deleted the listener at time 4, the timer that
  the listener's entry held is still pending.
\<close>

theorem removeAt_keeps_timer_counterexample:
  "map_of (timeListeners (fst pending_world)) listener_4 = Some (1, NaN, False)
   \<and> matches (Fin 4) 7 listener_4
   \<and> timeListeners (fst (removeAt (Fin 4) 7 pending_world)) = []
   \<and> timeouts (snd (removeAt (Fin 4) 7 pending_world)) = [(1, Fin 4, Fire listener_4)]"
  by (simp add: removeAt_filter pending_world_eq matches_def listener_4_def)

section \<open>The setters of the bounds\<close>

text \<open>The clock between equal bounds is what the setters make of a new clock.\<close>

lemma zero_span_clock_reachable:
  "\<exists>w1 w2. set_minimum (Fin 5) 0 (constructor 0, initial_runtime) = Some (Inr w1)
     \<and> set_maximum (Fin 5) 0 w1 = Some (Inr w2)
     \<and> set_loop True 0 w2 = Some (zero_span_clock, initial_runtime)"
  by (simp add: set_minimum_def set_maximum_def set_loop_def constructor_def get_time_def
      zero_span_clock_def js_gt_def Let_def)

lemma set_minimum_rejects:
  assumes "get_time (fst w) now = Some t"
    and "js_gt m (maximum (fst w)) \<or> js_eq m PInf"
  shows "set_minimum m now w = Some (Inl (Error ''Cannot set minimum above maximum'', w))"
  using assms by (simp add: set_minimum_def)

lemma set_maximum_rejects:
  assumes "get_time (fst w) now = Some t"
    and "js_lt m (minimum (fst w)) \<or> js_eq m NInf"
  shows "set_maximum m now w = Some (Inl (Error ''Cannot set maximum below minimum'', w))"
  using assms by (simp add: set_maximum_def)

text \<open>
  C4, at its failing input. The clock loops between the equal bounds 5 and 5, a state that
  the setters reach from a new clock. Setting the minimum to 7, above the maximum, should
  throw; the setter reads the time first, the getter never returns, and nothing is thrown.
  The same holds for setting the maximum to 3, below the minimum. In the worlds where the
  getter returns, the two lemmas before this one give the error and the unchanged world.
\<close>

theorem set_bound_zero_span_never_returns:
  "js_gt (Fin 7) (maximum zero_span_clock)
   \<and> set_minimum (Fin 7) 0 (zero_span_clock, initial_runtime) = None
   \<and> js_lt (Fin 3) (minimum zero_span_clock)
   \<and> set_maximum (Fin 3) 0 (zero_span_clock, initial_runtime) = None"
proof -
  have "get_time zero_span_clock 0 = None"
    by (simp add: get_time_alt can_loop_def unbounded_time_def zero_span_clock_def js_gt_def
      time_loop_sub_diverges)
  then show ?thesis
    by (simp add: set_minimum_def set_maximum_def) (simp add: zero_span_clock_def)
qed

text \<open>
  Right after a calibration at the time \<open>t\<close> and the reading \<open>now\<close>, the getter shows \<open>t\<close>
  again, when \<open>t\<close> lies within the bounds, and below the maximum if the clock loops.
\<close>

lemma get_time_calibrated:
  assumes prev: "previousTime c = t" and pn: "previousNow c = now"
    and rt: "running c \<longrightarrow> is_finite (rate c)"
    and lo: "js_le (minimum c) t" and hi: "js_le t (maximum c)"
    and lp: "can_loop c \<longrightarrow> js_lt t (maximum c)"
  shows "get_time c now = Some t"
proof -
  have nn: "t \<noteq> NaN" using lo by (cases "minimum c") (auto simp: js_le_def)
  have u: "unbounded_time c now = t"
    using prev pn rt nn by (cases t) (auto simp: unbounded_time_def is_finite_iff)
  show ?thesis
  proof (cases "can_loop c")
    case False
    then show ?thesis using u lo hi by (simp add: get_time_alt clamp_inside)
  next
    case True
    with lp have lt: "js_lt t (maximum c)" by simp
    from True lo lt obtain mn a mx where
      f: "minimum c = Fin mn" "t = Fin a" "maximum c = Fin mx"
      by (cases "minimum c"; cases t; cases "maximum c") (auto simp: can_loop_def js_gt_def js_le_def)
    with lo lt have r: "mn \<le> a" "a < mx" by simp_all
    show ?thesis
    proof (cases "mn = 0")
      case True
      then show ?thesis using \<open>can_loop c\<close> u f r
        by (simp add: get_time_alt js_mod_small del: js_mod.simps)
    next
      case False
      then show ?thesis using \<open>can_loop c\<close> u f r
        by (simp add: get_time_alt time_loop_sub_below)
    qed
  qed
qed

lemma recalculate_then_get_time:
  assumes "get_time c now = Some t"
  shows "\<exists>w1. recalculateTimeListeners now (c, rt) = Some w1
            \<and> get_time (fst (trigger event w1)) now = Some t"
proof -
  from recalculateTimeListeners_returns[of "(c, rt)" now] assms obtain w1 where
    r: "recalculateTimeListeners now (c, rt) = Some w1" by auto
  from recalculateTimeListeners_shape[OF r] have "same_settings c (fst w1)" by simp
  then have "get_time (fst w1) now = Some t" using assms by (simp add: get_time_same_settings)
  then show ?thesis using r by simp
qed

text \<open>
  C5, as amended. Let the time getter return \<open>t\<close>, and let the rate be finite if the clock
  runs. Setting the minimum to a value other than \<open>Infinity\<close>, with \<open>t\<close> within the new
  bounds and, if the clock loops between the new finite bounds, below the maximum, returns,
  and the getter returns \<open>t\<close> again at the same reading of the wall clock. The same holds for
  setting the maximum to a value other than \<open>-Infinity\<close>.
\<close>

theorem bound_setters_keep_time:
  assumes "get_time (fst w) now = Some t"
    and "running (fst w) \<longrightarrow> is_finite (rate (fst w))"
  shows "(m \<noteq> PInf \<and> js_le m t \<and> js_le t (maximum (fst w))
          \<and> (loop (fst w) \<and> js_gt m NInf \<and> js_lt (maximum (fst w)) PInf
               \<longrightarrow> js_lt t (maximum (fst w)))
          \<longrightarrow> (\<exists>w'. set_minimum m now w = Some (Inr w') \<and> get_time (fst w') now = Some t))
       \<and> (m \<noteq> NInf \<and> js_le (minimum (fst w)) t \<and> js_le t m
          \<and> (loop (fst w) \<and> js_gt (minimum (fst w)) NInf \<and> js_lt m PInf \<longrightarrow> js_lt t m)
          \<longrightarrow> (\<exists>w'. set_maximum m now w = Some (Inr w') \<and> get_time (fst w') now = Some t))"
proof (intro conjI impI)
  assume a: "m \<noteq> PInf \<and> js_le m t \<and> js_le t (maximum (fst w))
          \<and> (loop (fst w) \<and> js_gt m NInf \<and> js_lt (maximum (fst w)) PInf
               \<longrightarrow> js_lt t (maximum (fst w)))"
  let ?c = "(fst w)\<lparr>minimum := m, previousTime := t, previousNow := now\<rparr>"
  have ok: "\<not> (js_gt m (maximum (fst w)) \<or> js_eq m PInf)"
    using a by (cases m; cases t; cases "maximum (fst w)") (auto simp: js_le_def js_gt_def)
  have "get_time ?c now = Some t"
    using a assms(2) by (intro get_time_calibrated) (auto simp: can_loop_def)
  from recalculate_then_get_time[OF this, of "snd w" "''setminimum''"] obtain w1 where
    r: "recalculateTimeListeners now (?c, snd w) = Some w1"
    and g: "get_time (fst (trigger ''setminimum'' w1)) now = Some t" by blast
  have "Math_min (Math_max m t) (maximum (fst w)) = t" using a by (simp add: clamp_inside)
  then have "set_minimum m now w = Some (Inr (trigger ''setminimum'' w1))"
    using assms(1) ok r by (simp add: set_minimum_def Let_def)
  with g show "\<exists>w'. set_minimum m now w = Some (Inr w') \<and> get_time (fst w') now = Some t"
    by blast
next
  assume a: "m \<noteq> NInf \<and> js_le (minimum (fst w)) t \<and> js_le t m
          \<and> (loop (fst w) \<and> js_gt (minimum (fst w)) NInf \<and> js_lt m PInf \<longrightarrow> js_lt t m)"
  let ?c = "(fst w)\<lparr>maximum := m, previousTime := t, previousNow := now\<rparr>"
  have ok: "\<not> (js_lt m (minimum (fst w)) \<or> js_eq m NInf)"
    using a by (cases m; cases t; cases "minimum (fst w)") (auto simp: js_le_def)
  have "get_time ?c now = Some t"
    using a assms(2) by (intro get_time_calibrated) (auto simp: can_loop_def)
  from recalculate_then_get_time[OF this, of "snd w" "''setmaximum''"] obtain w1 where
    r: "recalculateTimeListeners now (?c, snd w) = Some w1"
    and g: "get_time (fst (trigger ''setmaximum'' w1)) now = Some t" by blast
  have "Math_min (Math_max (minimum (fst w)) t) m = t" using a by (simp add: clamp_inside)
  then have "set_maximum m now w = Some (Inr (trigger ''setmaximum'' w1))"
    using assms(1) ok r by (simp add: set_maximum_def Let_def)
  with g show "\<exists>w'. set_maximum m now w = Some (Inr w') \<and> get_time (fst w') now = Some t"
    by blast
qed

theorem bound_setters_keep_time_witness:
  "get_time (fst watched_world) 1 = Some (Fin 5)
   \<and> \<not> running (fst watched_world)
   \<and> Fin 2 \<noteq> PInf \<and> js_le (Fin 2) (Fin 5) \<and> js_le (Fin 5) (maximum (fst watched_world))
   \<and> js_lt (Fin 5) (maximum (fst watched_world))
   \<and> displayed_after (set_minimum (Fin 2) 1 watched_world) 1 = Some (Fin 5)
   \<and> Fin 6 \<noteq> NInf \<and> js_le (minimum (fst watched_world)) (Fin 5) \<and> js_le (Fin 5) (Fin 6)
   \<and> js_lt (Fin 5) (Fin 6)
   \<and> displayed_after (set_maximum (Fin 6) 1 watched_world) 1 = Some (Fin 5)"
proof -
  have f: "\<not> running (fst watched_world)" "maximum (fst watched_world) = Fin 10"
    "minimum (fst watched_world) = Fin 0"
    by (simp_all add: watched_world_def watched_clock_def looping_clock_def)
  note g = get_time_watched_world
  from bound_setters_keep_time [of watched_world 1 "Fin 5" "Fin 2"] g f
  obtain w1 where "set_minimum (Fin 2) 1 watched_world = Some (Inr w1)"
    "get_time (fst w1) 1 = Some (Fin 5)" by auto
  then have 1: "displayed_after (set_minimum (Fin 2) 1 watched_world) 1 = Some (Fin 5)"
    by (simp add: displayed_after_def)
  from bound_setters_keep_time [of watched_world 1 "Fin 5" "Fin 6"] g f
  obtain w2 where "set_maximum (Fin 6) 1 watched_world = Some (Inr w2)"
    "get_time (fst w2) 1 = Some (Fin 5)" by auto
  then have 2: "displayed_after (set_maximum (Fin 6) 1 watched_world) 1 = Some (Fin 5)"
    by (simp add: displayed_after_def)
  from g f 1 2 show ?thesis by simp
qed

text \<open>
  C5 as stated fails when the time equals the new maximum of a looping clock: the time 5
  lies within the new bounds \<open>[0, 5]\<close>, and after the maximum is set to 5 the getter shows 0.
\<close>

theorem set_maximum_wraps_time_counterexample:
  "get_time (fst watched_world) 1 = Some (Fin 5)
   \<and> js_le (minimum (fst watched_world)) (Fin 5) \<and> js_le (Fin 5) (Fin 5)
   \<and> displayed_after (set_maximum (Fin 5) 1 watched_world) 1 = Some (Fin 0)"
  by (simp add: displayed_after_def set_maximum_def watched_world_def watched_clock_def
      looping_clock_def recalculateTimeListeners_def recalculateTimeListener_def get_time_def
      trigger_def clearTimeout_def initial_runtime_def listener_4_def
      js_gt_def js_ne_def Let_def trunc_def)

section \<open>The reference time and the bounds\<close>


lemma js_le_not_NaN: "js_le a b \<Longrightarrow> a \<noteq> NaN \<and> b \<noteq> NaN"
  by (cases a; cases b) (auto simp: js_le_def)

lemma reference_within_bounds_same_settings:
  "same_settings c c' \<Longrightarrow> reference_within_bounds c' = reference_within_bounds c"
  by (simp add: same_settings_def reference_within_bounds_def)


text \<open>
  \<open>start\<close> stamps the reading of the wall clock and leaves the reference time: the time
  shown right after it is the time shown before.
\<close>

lemma start_keeps_time:
  assumes "\<not> running (fst w)" and "is_finite (rate (fst w))"
    and "previousTime (fst w) \<noteq> NaN" and "start now w = Some w'"
  shows "running (fst w') \<and> get_time (fst w') now = get_time (fst w) now"
proof -
  let ?c = "(fst w)\<lparr>previousNow := now, running := True\<rparr>"
  from assms(1,4) obtain w1 where
    r: "recalculateTimeListeners now (?c, snd w) = Some w1"
    and w': "w' = trigger ''setrunning'' (trigger ''start'' w1)"
    by (auto simp: start_def split: option.splits)
  from recalculateTimeListeners_shape[OF r] have s: "same_settings ?c (fst w')"
    using w' by simp
  have "unbounded_time ?c now = unbounded_time (fst w) now"
    using assms(1-3) by (cases "previousTime (fst w)") (auto simp: unbounded_time_def is_finite_iff)
  then have "get_time ?c now = get_time (fst w) now"
    by (simp add: get_time_alt can_loop_def)
  with s show ?thesis by (simp add: get_time_same_settings) (simp add: same_settings_def)
qed






lemma zero_window_clock_reachable:
  "\<exists>w1 w2. set_minimum (Fin 0) 0 (constructor 0, initial_runtime) = Some (Inr w1)
     \<and> set_maximum (Fin 0) 0 w1 = Some (Inr w2)
     \<and> set_loop True 0 w2 = Some (zero_window_clock, initial_runtime)"
  by (simp add: set_minimum_def set_maximum_def set_loop_def constructor_def get_time_def
      zero_window_clock_def js_gt_def Let_def)


section \<open>The scheduler's invariant\<close>

text \<open>
  The invariant that C3 starts from holds in the world of a new clock and after every
  operation that returns: the timers stay owned, a clock that does not run keeps no pending
  timer of a registered listener, and the array identities in use stay below the next fresh
  one.
\<close>

lemma timers_ownedI:
  assumes "\<And>t entry. t \<in> set (timeouts (snd w))
             \<Longrightarrow> map_of (timeListeners (fst w)) (closure_listener (snd (snd t))) = Some entry
             \<Longrightarrow> fst entry = fst t"
  shows "timers_owned w"
  unfolding timers_owned_def using assms by (auto split: option.splits)

lemma timers_owned_cleared:
  assumes "timers_owned w"
  shows "timers_owned (fst w, clearTimeout i (snd w))"
proof (rule timers_ownedI)
  fix t entry
  assume "t \<in> set (timeouts (snd (fst w, clearTimeout i (snd w))))"
    and m: "map_of (timeListeners (fst (fst w, clearTimeout i (snd w)))) (closure_listener (snd (snd t))) = Some entry"
  then have "t \<in> set (timeouts (snd w))" by (simp add: clearTimeout_def)
  from timers_ownedD[OF assms this] m show "fst entry = fst t" by simp
qed

text \<open>
  After the entry's timer has been cancelled, no pending timer belongs to the listener; so a
  new timer for it, with its id in the entry, keeps the timers owned.
\<close>

lemma timers_owned_rearmed:
  assumes own: "timers_owned w"
    and reg: "map_of (timeListeners (fst w)) listener = Some (timeoutId, lastCalled, once)"
    and f: "closure_listener f = listener"
  shows "timers_owned
           ((fst w)\<lparr>timeListeners :=
               AList.update listener (nextTimeoutId (clearTimeout timeoutId (snd w)), lc, once)
                 (timeListeners (fst w))\<rparr>,
            (clearTimeout timeoutId (snd w))
              \<lparr>timeouts := timeouts (clearTimeout timeoutId (snd w))
                   @ [(nextTimeoutId (clearTimeout timeoutId (snd w)), delay, f)],
               nextTimeoutId := Suc (nextTimeoutId (clearTimeout timeoutId (snd w)))\<rparr>)"
    (is "timers_owned ?w'")
proof (rule timers_ownedI)
  fix t entry
  let ?n = "nextTimeoutId (clearTimeout timeoutId (snd w))"
  assume t: "t \<in> set (timeouts (snd ?w'))"
    and m: "map_of (timeListeners (fst ?w')) (closure_listener (snd (snd t))) = Some entry"
  from t have "t = (?n, delay, f)
      \<or> (t \<in> set (timeouts (snd w)) \<and> fst t \<noteq> timeoutId)"
    by (auto simp: clearTimeout_def)
  then show "fst entry = fst t"
  proof
    assume "t = (?n, delay, f)"
    then show ?thesis using m f by (auto simp add: update_conv')
  next
    assume a: "t \<in> set (timeouts (snd w)) \<and> fst t \<noteq> timeoutId"
    show ?thesis
    proof (cases "closure_listener (snd (snd t)) = listener")
      case True
      with timers_ownedD[OF own _ reg[folded True]] a show ?thesis by auto
    next
      case False
      with m have "map_of (timeListeners (fst w)) (closure_listener (snd (snd t))) = Some entry"
        by (simp add: update_conv')
      from timers_ownedD[OF own _ this] a show ?thesis by simp
    qed
  qed
qed

lemma timers_owned_recalculate:
  assumes own: "timers_owned w" and r: "recalculateTimeListener listener now w = Some w'"
  shows "timers_owned w'"
proof (cases "map_of (timeListeners (fst w)) listener")
  case None
  then show ?thesis using own r by (simp add: recalculate_unregistered)
next
  case (Some entry)
  obtain timeoutId lastCalled once where e: "entry = (timeoutId, lastCalled, once)"
    by (cases entry) auto
  note reg = Some[unfolded e]
  note cleared = timers_owned_cleared[OF own, of timeoutId]
  show ?thesis
  proof (cases "reachable listener (fst w)")
    case False
    from recalculate_unreachable[OF reg False] r cleared show ?thesis by simp
  next
    case True
    show ?thesis
    proof (cases "get_time (fst w) now")
      case None
      from recalculate_diverges[OF reg True None] r show ?thesis by simp
    next
      case (Some currentTime)
      show ?thesis
      proof (cases "js_eq currentTime lastCalled")
        case True
        from recalculate_retry[OF reg \<open>reachable listener (fst w)\<close> Some True] r cleared
          timers_owned_rearmed[OF own reg, of "Retry listener" lastCalled "Fin 1"]
        show ?thesis by (auto simp: Let_def split: if_splits)
      next
        case False
        from recalculate_schedule[OF reg \<open>reachable listener (fst w)\<close> Some False] r cleared
          timers_owned_rearmed[OF own reg, of "Fire listener" NaN]
        show ?thesis by (auto simp: Let_def armed_def split: if_splits)
      qed
    qed
  qed
qed

lemma refs_fresh_cleared:
  "refs_fresh w \<Longrightarrow> refs_fresh (fst w, clearTimeout i (snd w))"
  by (simp add: refs_fresh_def clearTimeout_def)

lemma registered_key:
  "map_of al k = Some v \<Longrightarrow> k \<in> set (map fst al)"
  by (metis map_of_eq_None_iff option.distinct(1) set_map)

lemma refs_fresh_rearmed:
  assumes fr: "refs_fresh w"
    and reg: "map_of (timeListeners (fst w)) listener = Some (timeoutId, lastCalled, once)"
    and f: "closure_listener f = listener"
  shows "refs_fresh
           ((fst w)\<lparr>timeListeners :=
               AList.update listener (nextTimeoutId (clearTimeout timeoutId (snd w)), lc, once)
                 (timeListeners (fst w))\<rparr>,
            (clearTimeout timeoutId (snd w))
              \<lparr>timeouts := timeouts (clearTimeout timeoutId (snd w))
                   @ [(nextTimeoutId (clearTimeout timeoutId (snd w)), delay, f)],
               nextTimeoutId := Suc (nextTimeoutId (clearTimeout timeoutId (snd w)))\<rparr>)"
proof -
  from registered_key[OF reg] fr have "l_ref listener < nextRef (snd w)"
    unfolding refs_fresh_def by blast
  then show ?thesis
    using fr f by (auto simp: refs_fresh_def clearTimeout_def map_fst_update_present[OF reg])
qed

lemma refs_fresh_recalculate:
  assumes fr: "refs_fresh w" and r: "recalculateTimeListener listener now w = Some w'"
  shows "refs_fresh w'"
proof (cases "map_of (timeListeners (fst w)) listener")
  case None
  then show ?thesis using fr r by (simp add: recalculate_unregistered)
next
  case (Some entry)
  obtain timeoutId lastCalled once where e: "entry = (timeoutId, lastCalled, once)"
    by (cases entry) auto
  note reg = Some[unfolded e]
  note cleared = refs_fresh_cleared[OF fr, of timeoutId]
  show ?thesis
  proof (cases "reachable listener (fst w)")
    case False
    from recalculate_unreachable[OF reg False] r cleared show ?thesis by simp
  next
    case True
    show ?thesis
    proof (cases "get_time (fst w) now")
      case None
      from recalculate_diverges[OF reg True None] r show ?thesis by simp
    next
      case (Some currentTime)
      show ?thesis
      proof (cases "js_eq currentTime lastCalled")
        case True
        from recalculate_retry[OF reg \<open>reachable listener (fst w)\<close> Some True] r cleared
          refs_fresh_rearmed[OF fr reg, of "Retry listener" lastCalled "Fin 1"]
        show ?thesis by (auto simp: Let_def split: if_splits)
      next
        case False
        from recalculate_schedule[OF reg \<open>reachable listener (fst w)\<close> Some False] r cleared
          refs_fresh_rearmed[OF fr reg, of "Fire listener" NaN]
        show ?thesis by (auto simp: Let_def armed_def split: if_splits)
      qed
    qed
  qed
qed

lemma no_live_timers_recalculate:
  assumes "\<not> running (fst w)" and "no_live_timers w"
    and "recalculateTimeListener listener now w = Some w'"
  shows "no_live_timers w'"
proof -
  from recalculate_stopped[OF assms(1), of listener now] assms(3) obtain rt where
    "w' = (fst w, rt)" "set (timeouts rt) \<subseteq> set (timeouts (snd w))" by auto
  then show ?thesis using assms(2) by (auto simp: no_live_timers_def)
qed

lemma world_invariant_recalculate:
  assumes "world_invariant w" and r: "recalculateTimeListener listener now w = Some w'"
  shows "world_invariant w'"
proof -
  from assms(1) have own: "timers_owned w" and fr: "refs_fresh w"
    and nl: "\<not> running (fst w) \<longrightarrow> no_live_timers w"
    by (simp_all add: world_invariant_def well_scheduled_def)
  from recalculate_shape[OF r] have "running (fst w') = running (fst w)"
    by (simp add: same_settings_def)
  then show ?thesis
    using timers_owned_recalculate[OF own r] refs_fresh_recalculate[OF fr r]
      no_live_timers_recalculate[OF _ _ r] nl
    by (auto simp: world_invariant_def well_scheduled_def)
qed

lemma timers_owned_recalculate_each:
  "timers_owned w \<Longrightarrow> refs_fresh w \<Longrightarrow> recalculate_each ls now w = Some w'
     \<Longrightarrow> timers_owned w' \<and> refs_fresh w'"
proof (induction ls arbitrary: w)
  case Nil
  then show ?case by simp
next
  case (Cons l ls)
  from Cons.prems(3) obtain w1 where s: "recalculateTimeListener l now w = Some w1"
    and r: "recalculate_each ls now w1 = Some w'"
    by (auto split: option.splits)
  from Cons.IH[OF timers_owned_recalculate[OF Cons.prems(1) s]
      refs_fresh_recalculate[OF Cons.prems(2) s] r]
  show ?case .
qed

text \<open>
  An operation updates the settings of the clock and recalculates all listeners: the
  invariant holds afterwards, also when the update has stopped the clock.
\<close>

lemma world_invariant_after_update:
  assumes inv: "world_invariant w"
    and tl: "timeListeners c = timeListeners (fst w)"
    and r: "recalculateTimeListeners now (c, snd w) = Some w1"
  shows "world_invariant w1"
proof -
  from inv tl have own: "timers_owned (c, snd w)" and fr: "refs_fresh (c, snd w)"
    by (simp_all add: world_invariant_def well_scheduled_def timers_owned_def refs_fresh_def)
  from timers_owned_recalculate_each[OF own fr r[unfolded recalculateTimeListeners_def]]
  have 1: "timers_owned w1" "refs_fresh w1" by simp_all
  have "\<not> running (fst w1) \<longrightarrow> no_live_timers w1"
  proof
    assume "\<not> running (fst w1)"
    with recalculateTimeListeners_shape[OF r] have "\<not> running (fst (c, snd w))"
      by (simp add: same_settings_def)
    from stopped_recalculation_quiet[OF this own r] show "no_live_timers w1" by simp
  qed
  with 1 show ?thesis by (simp add: world_invariant_def well_scheduled_def)
qed

lemma world_invariant_trigger [simp]:
  "world_invariant (trigger event w) = world_invariant w"
  by (simp add: world_invariant_def well_scheduled_def timers_owned_def no_live_timers_def
      refs_fresh_def trigger_alt)

lemma world_invariant_initial: "world_invariant (constructor now, initial_runtime)"
  by (simp add: world_invariant_def well_scheduled_def timers_owned_def no_live_timers_def
      refs_fresh_def constructor_def initial_runtime_def)

lemma world_invariant_well_scheduled: "world_invariant w \<Longrightarrow> well_scheduled w"
  by (simp add: world_invariant_def)

text \<open>The invariant holds after every operation of the clock that returns.\<close>

lemma world_invariant_recalculated:
  assumes "recalculateTimeListeners now (c, rt) = Some w1"
    and "world_invariant w" and "rt = snd w" and "timeListeners c = timeListeners (fst w)"
  shows "world_invariant w1"
  using world_invariant_after_update[OF assms(2,4)] assms(1,3) by simp

lemma world_invariant_start:
  "world_invariant w \<Longrightarrow> start now w = Some w' \<Longrightarrow> world_invariant w'"
  by (auto simp: start_def split: if_splits option.splits dest!: world_invariant_recalculated)

lemma world_invariant_stop:
  "world_invariant w \<Longrightarrow> stop now w = Some w' \<Longrightarrow> world_invariant w'"
  by (auto simp: stop_def split: if_splits option.splits dest!: world_invariant_recalculated)

lemma world_invariant_set_time:
  "world_invariant w \<Longrightarrow> set_time x now w = Some w' \<Longrightarrow> world_invariant w'"
  by (auto simp: set_time_def Let_def split: option.splits dest!: world_invariant_recalculated)

lemma world_invariant_set_rate:
  "world_invariant w \<Longrightarrow> set_rate r now w = Some w' \<Longrightarrow> world_invariant w'"
  by (auto simp: set_rate_def split: if_splits option.splits dest!: world_invariant_recalculated)

lemma world_invariant_set_minimum:
  "world_invariant w \<Longrightarrow> set_minimum m now w = Some (Inr w') \<Longrightarrow> world_invariant w'"
  by (auto simp: set_minimum_def Let_def split: if_splits option.splits
      dest!: world_invariant_recalculated)

lemma world_invariant_set_maximum:
  "world_invariant w \<Longrightarrow> set_maximum m now w = Some (Inr w') \<Longrightarrow> world_invariant w'"
  by (auto simp: set_maximum_def Let_def split: if_splits option.splits
      dest!: world_invariant_recalculated)

lemma world_invariant_set_loop:
  "world_invariant w \<Longrightarrow> set_loop l now w = Some w' \<Longrightarrow> world_invariant w'"
  by (auto simp: set_loop_def split: option.splits dest!: world_invariant_recalculated)

lemma map_of_filter_keys:
  "map_of (filter (\<lambda>entry. P (fst entry)) al) k = (if P k then map_of al k else None)"
  by (induction al) auto

lemma world_invariant_removeAt:
  assumes "world_invariant w"
  shows "world_invariant (removeAt time callback w)"
proof -
  let ?P = "\<lambda>l. \<not> matches time callback l"
  have m: "\<And>l. map_of (timeListeners (fst (removeAt time callback w))) l
             = (if ?P l then map_of (timeListeners (fst w)) l else None)"
    by (simp add: removeAt_filter map_of_filter_keys[where P = ?P])
  have t: "snd (removeAt time callback w) = snd w" by (simp add: removeAt_filter)
  have r: "running (fst (removeAt time callback w)) = running (fst w)"
    by (simp add: removeAt_filter)
  have k: "set (map fst (timeListeners (fst (removeAt time callback w))))
             \<subseteq> set (map fst (timeListeners (fst w)))"
    by (auto simp: removeAt_filter)
  from assms have own: "timers_owned w" and fr: "refs_fresh w"
    and nl: "\<not> running (fst w) \<longrightarrow> no_live_timers w"
    by (simp_all add: world_invariant_def well_scheduled_def)
  have "timers_owned (removeAt time callback w)"
  proof (rule timers_ownedI)
    fix u entry
    assume "u \<in> set (timeouts (snd (removeAt time callback w)))"
      and "map_of (timeListeners (fst (removeAt time callback w))) (closure_listener (snd (snd u)))
             = Some entry"
    then have "u \<in> set (timeouts (snd w))"
      "map_of (timeListeners (fst w)) (closure_listener (snd (snd u))) = Some entry"
      by (simp_all add: t m split: if_splits)
    from timers_ownedD[OF own this] show "fst entry = fst u" .
  qed
  moreover have "\<not> running (fst w) \<longrightarrow> no_live_timers (removeAt time callback w)"
    using nl unfolding no_live_timers_def t m by simp
  moreover have "refs_fresh (removeAt time callback w)"
    using fr k unfolding refs_fresh_def t by blast
  ultimately show ?thesis by (simp add: world_invariant_def well_scheduled_def r)
qed

lemma world_invariant_register:
  assumes inv: "world_invariant w" and r: "register time callback once now w = Some w'"
  shows "world_invariant w'"
proof -
  let ?l = "Listener (nextRef (snd w)) time callback"
  let ?w1 = "((fst w)\<lparr>timeListeners := AList.update ?l (0, NaN, once) (timeListeners (fst w))\<rparr>,
              (snd w)\<lparr>nextRef := Suc (nextRef (snd w))\<rparr>)"
  from inv have own: "timers_owned w" and fr: "refs_fresh w"
    and nl: "\<not> running (fst w) \<longrightarrow> no_live_timers w"
    by (simp_all add: world_invariant_def well_scheduled_def)
  have new: "\<And>u. u \<in> set (timeouts (snd w)) \<Longrightarrow> closure_listener (snd (snd u)) \<noteq> ?l"
    using fr by (fastforce simp: refs_fresh_def)
  have m: "\<And>u. u \<in> set (timeouts (snd w)) \<Longrightarrow>
             map_of (timeListeners (fst ?w1)) (closure_listener (snd (snd u)))
               = map_of (timeListeners (fst w)) (closure_listener (snd (snd u)))"
    using new by (simp add: update_conv')
  have "timers_owned ?w1"
  proof (rule timers_ownedI)
    fix u entry
    assume "u \<in> set (timeouts (snd ?w1))"
      and "map_of (timeListeners (fst ?w1)) (closure_listener (snd (snd u))) = Some entry"
    then have "u \<in> set (timeouts (snd w))"
      "map_of (timeListeners (fst w)) (closure_listener (snd (snd u))) = Some entry"
      using m by simp_all
    from timers_ownedD[OF own this] show "fst entry = fst u" .
  qed
  moreover have "\<not> running (fst ?w1) \<longrightarrow> no_live_timers ?w1"
    using nl m by (simp add: no_live_timers_def)
  moreover have "refs_fresh ?w1"
    using fr by (auto simp: refs_fresh_def update_keys less_Suc_eq)
  ultimately have "world_invariant ?w1"
    by (simp add: world_invariant_def well_scheduled_def)
  moreover have "recalculateTimeListener ?l now ?w1 = Some w'"
    using r by (simp add: register_def Let_def)
  ultimately show ?thesis by (rule world_invariant_recalculate)
qed

lemma world_invariant_onceAt:
  "world_invariant w \<Longrightarrow> onceAt time callback now w = Some w' \<Longrightarrow> world_invariant w'"
  unfolding onceAt_def by (rule world_invariant_register)

lemma world_invariant_alwaysAt:
  "world_invariant w \<Longrightarrow> alwaysAt time callback now w = Some w' \<Longrightarrow> world_invariant w'"
  unfolding alwaysAt_def by (rule world_invariant_register)

lemma world_invariant_cleared:
  assumes "world_invariant w"
  shows "world_invariant (fst w, clearTimeout i (snd w))"
  using assms timers_owned_cleared[of w i] refs_fresh_cleared[of w i]
  by (auto simp: world_invariant_def well_scheduled_def no_live_timers_def clearTimeout_def)

text \<open>
  The closure that calls the callback, run when no pending timer belongs to its listener:
  the entry then holds no timer, and the invariant is kept.
\<close>

lemma world_invariant_fire_listener:
  assumes inv: "world_invariant w"
    and none: "\<And>u. u \<in> set (timeouts (snd w)) \<Longrightarrow> closure_listener (snd (snd u)) \<noteq> listener"
    and run: "running (fst w) \<or> map_of (timeListeners (fst w)) listener = None"
    and f: "fire_listener listener now w = Some w'"
  shows "world_invariant w'"
proof (cases "map_of (timeListeners (fst w)) listener")
  case None
  then show ?thesis using f inv by (simp add: fire_listener_def)
next
  case (Some entry)
  obtain timeoutId lastCalled once where e: "entry = (timeoutId, lastCalled, once)"
    by (cases entry) auto
  note reg = Some[unfolded e]
  from run reg have running: "running (fst w)" by simp
  from f reg obtain t where t: "get_time (fst w) now = Some t"
    by (auto simp: fire_listener_def Let_def split: option.splits)
  let ?c = "(fst w)\<lparr>timeListeners := AList.update listener (0, t, once) (timeListeners (fst w))\<rparr>"
  let ?rt = "(snd w)\<lparr>calls := calls (snd w) @ [TimeCall listener ?c (timeouts (snd w))]\<rparr>"
  from inv have own: "timers_owned w" and fr: "refs_fresh w"
    by (simp_all add: world_invariant_def well_scheduled_def)
  have m: "\<And>u. u \<in> set (timeouts (snd w)) \<Longrightarrow>
             map_of (timeListeners ?c) (closure_listener (snd (snd u)))
               = map_of (timeListeners (fst w)) (closure_listener (snd (snd u)))"
    using none by (simp add: update_conv')
  have "timers_owned (?c, ?rt)"
  proof (rule timers_ownedI)
    fix u entry
    assume "u \<in> set (timeouts (snd (?c, ?rt)))"
      and "map_of (timeListeners (fst (?c, ?rt))) (closure_listener (snd (snd u))) = Some entry"
    then have "u \<in> set (timeouts (snd w))"
      "map_of (timeListeners (fst w)) (closure_listener (snd (snd u))) = Some entry"
      using m by simp_all
    from timers_ownedD[OF own this] show "fst entry = fst u" .
  qed
  moreover have "refs_fresh (?c, ?rt)"
    using fr by (simp add: refs_fresh_def map_fst_update_present[OF reg])
  ultimately have inv1: "world_invariant (?c, ?rt)"
    using running by (simp add: world_invariant_def well_scheduled_def)
  show ?thesis
  proof (cases once)
    case False
    then have "recalculateTimeListener listener now (?c, ?rt) = Some w'"
      using f reg t by (simp add: fire_listener_def Let_def)
    with inv1 show ?thesis by (rule world_invariant_recalculate)
  next
    case True
    let ?c2 = "?c\<lparr>timeListeners := AList.delete listener (timeListeners ?c)\<rparr>"
    from True have w': "w' = (?c2, ?rt)"
      using f reg t by (simp add: fire_listener_def Let_def)
    have m2: "\<And>u. u \<in> set (timeouts (snd w)) \<Longrightarrow>
             map_of (timeListeners ?c2) (closure_listener (snd (snd u)))
               = map_of (timeListeners ?c) (closure_listener (snd (snd u)))"
      using none by (simp add: delete_conv')
    have "timers_owned (?c2, ?rt)"
    proof (rule timers_ownedI)
      fix u entry
      assume "u \<in> set (timeouts (snd (?c2, ?rt)))"
        and "map_of (timeListeners (fst (?c2, ?rt))) (closure_listener (snd (snd u))) = Some entry"
      then have "u \<in> set (timeouts (snd w))"
        "map_of (timeListeners (fst w)) (closure_listener (snd (snd u))) = Some entry"
        using m m2 by simp_all
      from timers_ownedD[OF own this] show "fst entry = fst u" .
    qed
    moreover have "refs_fresh (?c2, ?rt)"
      using fr by (auto simp: refs_fresh_def map_fst_update_present[OF reg] delete_keys)
    ultimately show ?thesis
      using running w' by (simp add: world_invariant_def well_scheduled_def)
  qed
qed

lemma find_timeout:
  "find (\<lambda>u. fst u = i) us = Some (j, d, f) \<Longrightarrow> (i, d, f) \<in> set us"
  by (induction us) (auto split: if_splits)

lemma world_invariant_fire_timeout:
  assumes inv: "world_invariant w" and f: "fire_timeout timeoutId now w = Some w'"
  shows "world_invariant w'"
proof (cases "find (\<lambda>u. fst u = timeoutId) (timeouts (snd w))")
  case None
  then show ?thesis using f inv by (simp add: fire_timeout_def)
next
  case (Some u)
  obtain j d a where u: "u = (j, d, a)" by (cases u) auto
  from find_timeout[OF Some[unfolded u]] have mem: "(timeoutId, d, a) \<in> set (timeouts (snd w))" .
  let ?w0 = "(fst w, clearTimeout timeoutId (snd w))"
  note inv0 = world_invariant_cleared[OF inv, of timeoutId]
  from inv have own: "timers_owned w"
    and nl: "\<not> running (fst w) \<longrightarrow> no_live_timers w"
    by (simp_all add: world_invariant_def well_scheduled_def)
  show ?thesis
  proof (cases a)
    case (Retry listener)
    then have "recalculateTimeListener listener now ?w0 = Some w'"
      using f Some u by (simp add: fire_timeout_def Let_def)
    with inv0 show ?thesis by (rule world_invariant_recalculate)
  next
    case (Fire listener)
    then have fl: "fire_listener listener now ?w0 = Some w'"
      using f Some u by (simp add: fire_timeout_def Let_def)
    show ?thesis
    proof (cases "map_of (timeListeners (fst w)) listener")
      case None
      then have "fire_listener listener now ?w0 = Some ?w0" by (simp add: fire_listener_def)
      with fl inv0 show ?thesis by simp
    next
      case (Some entry)
      from timers_ownedD[OF own mem] Some Fire have id: "fst entry = timeoutId" by simp
      have none: "\<And>v. v \<in> set (timeouts (snd ?w0))
                    \<Longrightarrow> closure_listener (snd (snd v)) \<noteq> listener"
      proof
        fix v
        assume v: "v \<in> set (timeouts (snd ?w0))" and c: "closure_listener (snd (snd v)) = listener"
        then have v': "v \<in> set (timeouts (snd w))" "fst v \<noteq> timeoutId"
          by (simp_all add: clearTimeout_def)
        from timers_ownedD[OF own v'(1)] c Some have "fst entry = fst v" by simp
        with id v'(2) show False by simp
      qed
      have "running (fst w)"
      proof (rule ccontr)
        assume "\<not> running (fst w)"
        with nl have "no_live_timers w" by simp
        with mem Fire have "map_of (timeListeners (fst w)) listener = None"
          by (auto simp: no_live_timers_def)
        with Some show False by simp
      qed
      then have run: "running (fst ?w0) \<or> map_of (timeListeners (fst ?w0)) listener = None"
        by simp
      from world_invariant_fire_listener[OF inv0 none run fl] show ?thesis .
    qed
  qed
qed

lemma world_invariant_fire_timeouts:
  "world_invariant w \<Longrightarrow> fire_timeouts firings w = Some w' \<Longrightarrow> world_invariant w'"
proof (induction firings arbitrary: w)
  case Nil
  then show ?case by simp
next
  case (Cons f firings)
  obtain i now where f: "f = (i, now)" by (cases f) auto
  from Cons.prems(2) f obtain w1 where s: "fire_timeout i now w = Some w1"
    and r: "fire_timeouts firings w1 = Some w'"
    by (auto split: option.splits)
  from Cons.IH[OF world_invariant_fire_timeout[OF Cons.prems(1) s] r] show ?case .
qed

lemma world_invariant_same_registry:
  "timeListeners c = timeListeners (fst w) \<Longrightarrow> running c = running (fst w)
     \<Longrightarrow> world_invariant (c, snd w) = world_invariant w"
  by (simp add: world_invariant_def well_scheduled_def timers_owned_def no_live_timers_def
      refs_fresh_def)

lemma world_invariant_on:
  "world_invariant w \<Longrightarrow> world_invariant (on event callback (fst w), snd w)"
  by (subst world_invariant_same_registry) (simp_all add: on_def split: option.splits)

lemma world_invariant_off:
  assumes "world_invariant w" and "off event callback (fst w) = Inr c"
  shows "world_invariant (c, snd w)"
proof -
  from assms(2) have "timeListeners c = timeListeners (fst w)" "running c = running (fst w)"
    by (auto simp: off_def split: option.splits if_splits)
  then show ?thesis using assms(1) by (simp add: world_invariant_same_registry)
qed

end
